theory Spec2Isabelle
  imports Complex_Main "HOL-Library.Word" "HOL-Library.Log_Nat"
begin

unbundle bit_operations_syntax

section \<open>Faults of the C++ abstract machine\<close>

text \<open>
  The firmware is C++ without exceptions.  What the language leaves undefined is a
  value of the model: an access outside an allocated array, a dereferenced null
  pointer, an integer division by zero and a floating-point value converted to an
  integer type that cannot hold it.
\<close>

datatype error = OutOfBounds | NullPointer | DivisionByZero | Unrepresentable

section \<open>RingBuffer (logic\_analyzer.h, lines 92--180)\<close>

text \<open>
  The fields of \<^verbatim>\<open>RingBuffer<T>\<close>.  The counters are \<^verbatim>\<open>size_t\<close>; none of them
  can exceed the capacity by more than one, so they are natural numbers.  \<open>data\<close> is
  the storage obtained from \<^verbatim>\<open>new T[size_count]\<close>: a list with exactly as many slots
  as were allocated.
\<close>

record 'a RingBuffer =
  available_count :: nat
  size_count :: nat
  write_pos :: nat
  read_pos :: nat
  ignore_count :: nat
  data :: "'a list"

text \<open>
  The constructor (lines 95--102).  \<open>alloc_ok\<close> says whether \<^verbatim>\<open>new T[size]\<close> returned
  storage; when it did not, the constructor sets \<open>size_count\<close> to 0 and \<open>data\<close> is the
  null pointer, which has no slot.  Fresh storage is indeterminate in C++; the model
  fills it with zeros.
\<close>

definition RingBuffer_new :: "nat \<Rightarrow> bool \<Rightarrow> ('a::zero) RingBuffer" where
  "RingBuffer_new size_arg alloc_ok =
     (let n = (if alloc_ok then size_arg else 0) in
      \<lparr>available_count = 0, size_count = n, write_pos = 0, read_pos = 0,
       ignore_count = 0, data = replicate n 0\<rparr>)"

text \<open>
  \<^verbatim>\<open>write\<close> (lines 109--123), under the name \<open>write_rb\<close> because \<open>write\<close> is a
  keyword here.  \<^verbatim>\<open>data[write_pos++] = value\<close> is a store at \<open>write_pos\<close>; outside
  the allocated slots it is \<open>OutOfBounds\<close>.
\<close>

definition write_rb :: "'a \<Rightarrow> 'a RingBuffer \<Rightarrow> error + 'a RingBuffer" where
  "write_rb v b =
     (if ignore_count b > 0 then Inr (b\<lparr>ignore_count := ignore_count b - 1\<rparr>)
      else if write_pos b \<ge> length (data b) then Inl OutOfBounds
      else
        let b1 = b\<lparr>data := (data b)[write_pos b := v], write_pos := write_pos b + 1\<rparr>;
            b2 = (if write_pos b1 > size_count b1 then b1\<lparr>write_pos := 0\<rparr> else b1)
        in Inr (if available_count b2 < size_count b2
                then b2\<lparr>available_count := available_count b2 + 1\<rparr>
                else b2\<lparr>read_pos := write_pos b2 + 1\<rparr>))"

text \<open>\<^verbatim>\<open>read\<close> (lines 126--136): the result and the buffer after the call.\<close>

definition read :: "('a::zero) RingBuffer \<Rightarrow> error + ('a \<times> 'a RingBuffer)" where
  "read b =
     (if available_count b > 0 then
        let b1 = (if read_pos b > size_count b then b\<lparr>read_pos := 0\<rparr> else b) in
        if read_pos b1 \<ge> length (data b1) then Inl OutOfBounds
        else Inr (data b1 ! read_pos b1,
                  b1\<lparr>read_pos := read_pos b1 + 1,
                     available_count := available_count b1 - 1\<rparr>)
      else Inr (0, b))"

text \<open>\<^verbatim>\<open>clear()\<close> (lines 139--144).\<close>

definition clear :: "'a RingBuffer \<Rightarrow> 'a RingBuffer" where
  "clear b = b\<lparr>ignore_count := 0, available_count := 0, write_pos := 0, read_pos := 0\<rparr>"

text \<open>\<^verbatim>\<open>available()\<close> and \<^verbatim>\<open>size()\<close> (lines 160--167).\<close>

definition available :: "'a RingBuffer \<Rightarrow> nat" where
  "available b = available_count b"

definition size_rb :: "'a RingBuffer \<Rightarrow> nat" where
  "size_rb b = size_count b"

text \<open>
  The loop of \<^verbatim>\<open>clear(size_t count)\<close> (lines 154--156):
  \<^verbatim>\<open>for (j=0; j<count && available()>0; j++) read();\<close>.  The first argument is the
  number of iterations that \<open>j < count\<close> still allows.
\<close>

fun clear_loop :: "nat \<Rightarrow> ('a::zero) RingBuffer \<Rightarrow> error + 'a RingBuffer" where
  "clear_loop 0 b = Inr b"
| "clear_loop (Suc k) b =
     (if available b > 0 then
        (case read b of Inl e \<Rightarrow> Inl e | Inr (v, b') \<Rightarrow> clear_loop k b')
      else Inr b)"

text \<open>\<^verbatim>\<open>clear(size_t count)\<close> (lines 147--157).\<close>

definition clear_n :: "nat \<Rightarrow> ('a::zero) RingBuffer \<Rightarrow> error + 'a RingBuffer" where
  "clear_n count b =
     (let b0 = b\<lparr>ignore_count := 0\<rparr>;
          b1 = (if count > available_count b0
                then b0\<lparr>ignore_count := count - available_count b0\<rparr> else b0)
      in clear_loop count b1)"

subsection \<open>Sequences of calls\<close>

text \<open>A sequence of \<^verbatim>\<open>write\<close> calls, stopping at the first fault.\<close>

fun writes :: "'a list \<Rightarrow> 'a RingBuffer \<Rightarrow> error + 'a RingBuffer" where
  "writes [] b = Inr b"
| "writes (v # vs) b = (case write_rb v b of Inl e \<Rightarrow> Inl e | Inr b' \<Rightarrow> writes vs b')"

text \<open>
  The entries that \<^verbatim>\<open>read\<close> will deliver, oldest first, in a buffer whose cursors
  are in step: the \<open>available_count\<close> slots from \<open>read_pos\<close> on.
\<close>

definition contents :: "'a RingBuffer \<Rightarrow> 'a list" where
  "contents b = take (available_count b) (drop (read_pos b) (data b))"

text \<open>
  The relation between the cursors that the constructor establishes and that every
  call that returns keeps.
\<close>

definition rb_inv :: "'a RingBuffer \<Rightarrow> bool" where
  "rb_inv b \<longleftrightarrow>
     length (data b) = size_count b \<and>
     read_pos b + available_count b = write_pos b \<and>
     write_pos b \<le> size_count b"

section \<open>The platform\<close>

text \<open>
  The firmware runs on 32-bit microcontrollers (the sources carry a backend for the
  RP2040): \<^verbatim>\<open>int\<close>, \<^verbatim>\<open>long\<close>, \<^verbatim>\<open>unsigned long\<close> and \<^verbatim>\<open>size_t\<close> have 32 bits and
  \<^verbatim>\<open>double\<close> is IEEE binary64.  The byte order of the host is a parameter.
\<close>

datatype endian = LittleEndian | BigEndian

text \<open>The four bytes of a 32-bit value, most significant first.\<close>

definition be_bytes :: "32 word \<Rightarrow> 8 word list" where
  "be_bytes x = [ucast (drop_bit 24 x), ucast (drop_bit 16 x), ucast (drop_bit 8 x), ucast x]"

text \<open>The four bytes of a 32-bit object in memory, lowest address first.\<close>

definition native_bytes :: "endian \<Rightarrow> 32 word \<Rightarrow> 8 word list" where
  "native_bytes host x = (case host of BigEndian \<Rightarrow> be_bytes x | LittleEndian \<Rightarrow> rev (be_bytes x))"

text \<open>The 32-bit object whose bytes in memory, lowest address first, are the given ones.\<close>

definition be_word :: "8 word \<Rightarrow> 8 word \<Rightarrow> 8 word \<Rightarrow> 8 word \<Rightarrow> 32 word" where
  "be_word a b c d =
     push_bit 24 (ucast a) OR push_bit 16 (ucast b) OR push_bit 8 (ucast c) OR ucast d"

definition native_word :: "endian \<Rightarrow> 8 word list \<Rightarrow> 32 word" where
  "native_word host bs =
     (case host of
        BigEndian \<Rightarrow> be_word (bs ! 0) (bs ! 1) (bs ! 2) (bs ! 3)
      | LittleEndian \<Rightarrow> be_word (bs ! 3) (bs ! 2) (bs ! 1) (bs ! 0))"

text \<open>
  \<^verbatim>\<open>htonl\<close>: the value whose bytes in memory are the big-endian bytes of the
  argument; the identity on a big-endian host, a byte swap on a little-endian one.
\<close>

definition htonl :: "endian \<Rightarrow> 32 word \<Rightarrow> 32 word" where
  "htonl host x = native_word host (be_bytes x)"

text \<open>Conversion of an \<^verbatim>\<open>int\<close> to \<^verbatim>\<open>size_t\<close>, as a comparison of the two performs it.\<close>

definition to_size_t :: "int \<Rightarrow> nat" where
  "to_size_t i = nat (i mod 2 ^ 32)"

subsection \<open>Double precision\<close>

text \<open>Rounding to the nearest integer, ties to the even one.\<close>

definition round_even :: "real \<Rightarrow> int" where
  "round_even y =
     (let f = \<lfloor>y\<rfloor>; d = y - of_int f in
      if d < 1 / 2 then f else if d > 1 / 2 then f + 1
      else if even f then f else f + 1)"

text \<open>Powers of two with an integer exponent.\<close>

definition pow2 :: "int \<Rightarrow> real" where
  "pow2 e = (if e \<ge> 0 then 2 ^ nat e else 1 / 2 ^ nat (- e))"

text \<open>
  The exponent \<open>e\<close> of a number other than 0, with \<open>2\<^sup>e \<le> |x| < 2\<^sup>e\<^sup>+\<^sup>1\<close>, from the
  number of bits of the integer part of \<open>|x|\<close> or of \<open>1 / |x|\<close>.
\<close>

definition binade :: "real \<Rightarrow> int" where
  "binade x =
     (if \<bar>x\<bar> \<ge> 1 then bitlen \<lfloor>\<bar>x\<bar>\<rfloor> - 1 else - bitlen (\<lceil>1 / \<bar>x\<bar>\<rceil> - 1))"

text \<open>
  The binary64 value of a real number: rounded to 53 significant bits, to nearest,
  ties to even.  The exponent is not bounded: the values that the firmware computes
  lie far inside the normal range.
\<close>

definition to_double :: "real \<Rightarrow> real" where
  "to_double x =
     (if x = 0 then 0
      else let u = pow2 (binade x - 52) in of_int (round_even (x / u)) * u)"

text \<open>Conversion of a double to \<^verbatim>\<open>uint64_t\<close>: truncation towards zero, undefined
  when the truncated value is not a value of the type.\<close>

definition trunc :: "real \<Rightarrow> int" where
  "trunc x = (if x \<ge> 0 then \<lfloor>x\<rfloor> else \<lceil>x\<rceil>)"

definition double_to_u64 :: "real \<Rightarrow> error + 64 word" where
  "double_to_u64 x =
     (if 0 \<le> trunc x \<and> trunc x < 2 ^ 64 then Inr (word_of_int (trunc x))
      else Inl Unrepresentable)"

section \<open>The SUMP command argument (lines 62--84)\<close>

text \<open>The four bytes \<^verbatim>\<open>uint8Values\<close>, as received: \<open>byte0\<close> came first.\<close>

datatype Sump4ByteComandArg =
  Sump4ByteComandArg (byte0: "8 word") (byte1: "8 word") (byte2: "8 word") (byte3: "8 word")

text \<open>\<^verbatim>\<open>getPtr()[i]\<close> for the indices that the dispatcher uses.\<close>

definition getPtr :: "Sump4ByteComandArg \<Rightarrow> 8 word list" where
  "getPtr c = [byte0 c, byte1 c, byte2 c, byte3 c]"

text \<open>
  \<^verbatim>\<open>get16(idx)\<close> is \<^verbatim>\<open>ntohs(uint16Values[idx])\<close>: the two bytes at \<open>2 * idx\<close> read
  as a big-endian number, whatever the host.  The array has two such halves.
\<close>

definition get16 :: "Sump4ByteComandArg \<Rightarrow> nat \<Rightarrow> error + 16 word" where
  "get16 c idx =
     (if idx = 0 then Inr (push_bit 8 (ucast (byte0 c)) OR ucast (byte1 c))
      else if idx = 1 then Inr (push_bit 8 (ucast (byte2 c)) OR ucast (byte3 c))
      else Inl OutOfBounds)"

text \<open>\<^verbatim>\<open>get32()\<close> is \<^verbatim>\<open>ntohl(uint32Value[0])\<close>: the four bytes as a big-endian number.\<close>

definition get32 :: "Sump4ByteComandArg \<Rightarrow> 32 word" where
  "get32 c = be_word (byte0 c) (byte1 c) (byte2 c) (byte3 c)"

section \<open>LogicAnalyzer (lines 192--758)\<close>

datatype Status = ARMED | TRIGGERED | STOPPED

datatype Event = RESET | STATUS | CAPUTRE_SIZE | CAPTURE_FREQUNCY | TRIGGER_VALUES
  | TRIGGER_MASK | READ_DLEAY_COUNT | FLAGS

text \<open>
  The calls that the analyzer makes on its \<^verbatim>\<open>Stream\<close>, in order.  \<open>Write_value\<close> is
  \<^verbatim>\<open>write\<close> called with an integer argument (line 547); which bytes it puts on the
  wire is decided by the stream class, which is not part of these sources.
\<close>

datatype stream_call =
    Write_byte "8 word"
  | Write_value "32 word"
  | Write_buf "8 word list"
  | Print string
  | Flush

text \<open>
  The members of \<^verbatim>\<open>LogicAnalyzer<T>\<close> (lines 490--514), with \<open>'s\<close> for \<open>T\<close>.
  \<open>impl_ptr\<close> says whether a pin reader is attached; the values that its
  \<^verbatim>\<open>readAll()\<close> returns are arguments of the functions that call it.
  \<open>eventHandler\<close> says whether a handler is installed, \<open>raised\<close> lists the events
  it was called with and \<open>stream_out\<close> the calls on the stream.
\<close>

record 's LogicAnalyzer =
  is_continuous_capture :: bool
  max_capture_size :: nat
  read_count :: int
  delay_count :: int
  pin_start :: int
  pin_numbers :: int
  frequecy_value :: "64 word"
  max_frequecy_value :: "64 word"
  max_frequecy_threshold :: "64 word"
  delay_time_us :: "64 word"
  sump_reset_igorne_timeout :: "64 word"
  status_value :: Status
  trigger_mask :: 's
  trigger_values :: 's
  impl_ptr :: bool
  buffer_ptr :: "'s RingBuffer option"
  eventHandler :: bool
  raised :: "Event list"
  stream_out :: "stream_call list"

text \<open>The string constants (lines 509--512), as bytes.  \<^verbatim>\<open>"\x041\x002"\<close> is the two
  characters 0x41 and 0x02.\<close>

definition description :: string where
  "description = ''ARDUINO''"

definition device_id :: "8 word list" where
  "device_id = [0x31, 0x41, 0x4C, 0x53]"

definition protocol_version :: "8 word list" where
  "protocol_version = [0x41, 0x02]"

text \<open>\<^verbatim>\<open>raiseEvent\<close> (lines 522--524) and \<^verbatim>\<open>setStatus\<close> (lines 261--267).\<close>

definition raiseEvent :: "Event \<Rightarrow> 's LogicAnalyzer \<Rightarrow> 's LogicAnalyzer" where
  "raiseEvent event la = (if eventHandler la then la\<lparr>raised := raised la @ [event]\<rparr> else la)"

definition setStatus :: "Status \<Rightarrow> 's LogicAnalyzer \<Rightarrow> 's LogicAnalyzer" where
  "setStatus status la = raiseEvent STATUS (la\<lparr>status_value := status\<rparr>)"

definition emit :: "stream_call \<Rightarrow> 's LogicAnalyzer \<Rightarrow> 's LogicAnalyzer" where
  "emit c la = la\<lparr>stream_out := stream_out la @ [c]\<rparr>"

text \<open>\<^verbatim>\<open>write(T bits)\<close> (lines 545--548): \<^verbatim>\<open>stream_ptr->write(htonl(bits))\<close>.\<close>

definition write_bits ::
  "endian \<Rightarrow> ('a::len) word \<Rightarrow> 'a word LogicAnalyzer \<Rightarrow> 'a word LogicAnalyzer" where
  "write_bits host bits la = emit (Write_value (htonl host (ucast bits))) la"

text \<open>\<^verbatim>\<open>write(uint8_t cmd, uint32_t number)\<close> (lines 551--556).\<close>

definition write_number ::
  "endian \<Rightarrow> 8 word \<Rightarrow> 32 word \<Rightarrow> 's LogicAnalyzer \<Rightarrow> 's LogicAnalyzer" where
  "write_number host cmd number la =
     (let la1 = emit (Write_byte cmd) la;
          toSend = htonl host number;
          la2 = emit (Write_buf (native_bytes host toSend)) la1
      in emit Flush la2)"

text \<open>\<^verbatim>\<open>write(uint8_t cmd, const char* str)\<close> (lines 559--564).\<close>

definition write_str :: "8 word \<Rightarrow> string \<Rightarrow> 's LogicAnalyzer \<Rightarrow> 's LogicAnalyzer" where
  "write_str cmd str la =
     emit Flush (emit (Write_buf [0])
       (emit (Print str) (emit (Write_byte cmd) la)))"

text \<open>
  \<^verbatim>\<open>captureSample\<close> (lines 355--366).  \<open>actual\<close> is what \<^verbatim>\<open>impl_ptr->readAll()\<close>
  returned.
\<close>

definition captureSample ::
  "endian \<Rightarrow> ('a::len) word \<Rightarrow> 'a word LogicAnalyzer \<Rightarrow> error + ('a word \<times> 'a word LogicAnalyzer)" where
  "captureSample host actual la =
     (if \<not> impl_ptr la then Inl NullPointer
      else if is_continuous_capture la then Inr (actual, write_bits host actual la)
      else if status_value la = TRIGGERED then
        (case buffer_ptr la of
           None \<Rightarrow> Inl NullPointer
         | Some b \<Rightarrow>
             (case write_rb actual b of
                Inl e \<Rightarrow> Inl e
              | Inr b' \<Rightarrow> Inr (actual, la\<lparr>buffer_ptr := Some b'\<rparr>)))
      else Inr (actual, la))"

text \<open>\<^verbatim>\<open>captureSampleFast\<close> (lines 369--371).\<close>

definition captureSampleFast ::
  "'s \<Rightarrow> 's LogicAnalyzer \<Rightarrow> error + 's LogicAnalyzer" where
  "captureSampleFast actual la =
     (case buffer_ptr la of
        None \<Rightarrow> Inl NullPointer
      | Some b \<Rightarrow>
          if \<not> impl_ptr la then Inl NullPointer
          else (case write_rb actual b of
                  Inl e \<Rightarrow> Inl e
                | Inr b' \<Rightarrow> Inr (la\<lparr>buffer_ptr := Some b'\<rparr>)))"

text \<open>\<^verbatim>\<open>captureSampleFastContinuous\<close> (lines 374--376).\<close>

definition captureSampleFastContinuous ::
  "endian \<Rightarrow> ('a::len) word \<Rightarrow> 'a word LogicAnalyzer \<Rightarrow> error + 'a word LogicAnalyzer" where
  "captureSampleFastContinuous host actual la =
     (if \<not> impl_ptr la then Inl NullPointer else Inr (write_bits host actual la))"

text \<open>
  The trigger wait of \<^verbatim>\<open>capture\<close> (line 275):
  \<^verbatim>\<open>while ((trigger_values ^ captureSample()) & trigger_mask) ;\<close>.
  The list holds the values that the pin reader returns from now on; the result also
  gives those not yet read.  \<open>None\<close>: the loop has read them all and is still waiting.
\<close>

fun trigger_wait ::
  "endian \<Rightarrow> ('a::len) word list \<Rightarrow> 'a word LogicAnalyzer
     \<Rightarrow> (error + 'a word LogicAnalyzer \<times> 'a word list) option" where
  "trigger_wait host [] la = None"
| "trigger_wait host (s # rest) la =
     (case captureSample host s la of
        Inl e \<Rightarrow> Some (Inl e)
      | Inr (actual, la') \<Rightarrow>
          if (trigger_values la' XOR actual) AND trigger_mask la' \<noteq> 0
          then trigger_wait host rest la'
          else Some (Inr (la', rest)))"

text \<open>The first part of \<^verbatim>\<open>capture\<close>, ``capture(trigger)'' (lines 271--281).\<close>

definition capture_trigger ::
  "endian \<Rightarrow> ('a::len) word list \<Rightarrow> 'a word LogicAnalyzer
     \<Rightarrow> (error + 'a word LogicAnalyzer \<times> 'a word list) option" where
  "capture_trigger host samples la =
     (if trigger_mask la \<noteq> 0 then
        (case trigger_wait host samples la of
           None \<Rightarrow> None
         | Some (Inl e) \<Rightarrow> Some (Inl e)
         | Some (Inr (la', rest)) \<Rightarrow> Some (Inr (setStatus TRIGGERED la', rest)))
      else Some (Inr (setStatus TRIGGERED la, samples)))"

text \<open>
  The second part, ``capture(buffer)'' (lines 283--295).  \<open>keep\<close> is a \<^verbatim>\<open>long\<close>;
  it is compared with and subtracted from \<^verbatim>\<open>available()\<close> only when it is positive.
  Whatever \<open>keep\<close> is, one of the three branches calls a member of the buffer.
\<close>

definition capture_buffer ::
  "('s::zero) LogicAnalyzer \<Rightarrow> error + 's LogicAnalyzer" where
  "capture_buffer la =
     (let keep = read_count la - delay_count la in
      case buffer_ptr la of
        None \<Rightarrow> Inl NullPointer
      | Some b \<Rightarrow>
          if keep > 0 \<and> available b > nat keep then
            (case clear_n (available b - nat keep) b of
               Inl e \<Rightarrow> Inl e
             | Inr b' \<Rightarrow> Inr (la\<lparr>buffer_ptr := Some b'\<rparr>))
          else if keep < 0 then
            (case clear_n (available b + nat \<bar>keep\<bar>) b of
               Inl e \<Rightarrow> Inl e
             | Inr b' \<Rightarrow> Inr (la\<lparr>buffer_ptr := Some b'\<rparr>))
          else if keep = 0 then Inr (la\<lparr>buffer_ptr := Some (clear b)\<rparr>)
          else Inr la)"

text \<open>
  \<^verbatim>\<open>captureAll\<close> (lines 321--327) and \<^verbatim>\<open>captureAllMaxSpeed\<close> (lines 330--335).
  They differ by the pause between two samples, which the model does not have.
\<close>

fun captureAll ::
  "'s list \<Rightarrow> 's LogicAnalyzer \<Rightarrow> (error + 's LogicAnalyzer \<times> 's list) option" where
  "captureAll samples la =
     (if status_value la \<noteq> TRIGGERED then Some (Inr (la, samples))
      else case buffer_ptr la of
        None \<Rightarrow> Some (Inl NullPointer)
      | Some b \<Rightarrow>
          if available b < to_size_t (read_count la) then
            (case samples of
               [] \<Rightarrow> None
             | s # rest \<Rightarrow>
                 (case captureSampleFast s la of
                    Inl e \<Rightarrow> Some (Inl e)
                  | Inr la' \<Rightarrow> captureAll rest la'))
          else Some (Inr (la, samples)))"

definition captureAllMaxSpeed ::
  "'s list \<Rightarrow> 's LogicAnalyzer \<Rightarrow> (error + 's LogicAnalyzer \<times> 's list) option" where
  "captureAllMaxSpeed samples la = captureAll samples la"

text \<open>
  \<^verbatim>\<open>captureAllContinous\<close> (lines 338--344) and \<^verbatim>\<open>captureAllContinousMaxSpeed\<close>
  (lines 347--352).  Nothing in the loop changes the status.
\<close>

fun captureAllContinous ::
  "endian \<Rightarrow> ('a::len) word list \<Rightarrow> 'a word LogicAnalyzer
     \<Rightarrow> (error + 'a word LogicAnalyzer \<times> 'a word list) option" where
  "captureAllContinous host samples la =
     (if status_value la \<noteq> TRIGGERED then Some (Inr (la, samples))
      else case samples of
        [] \<Rightarrow> None
      | s # rest \<Rightarrow>
          (case captureSampleFastContinuous host s la of
             Inl e \<Rightarrow> Some (Inl e)
           | Inr la' \<Rightarrow> captureAllContinous host rest la'))"

definition captureAllContinousMaxSpeed ::
  "endian \<Rightarrow> ('a::len) word list \<Rightarrow> 'a word LogicAnalyzer
     \<Rightarrow> (error + 'a word LogicAnalyzer \<times> 'a word list) option" where
  "captureAllContinousMaxSpeed host samples la = captureAllContinous host samples la"

text \<open>
  The loop of \<^verbatim>\<open>dumpData\<close> (lines 590--593): each entry read is widened to
  \<^verbatim>\<open>uint32_t\<close> and its four bytes are written as they lie in memory.
\<close>

function dumpData_loop ::
  "endian \<Rightarrow> ('a::len) word RingBuffer \<Rightarrow> stream_call list
     \<Rightarrow> error + ('a word RingBuffer \<times> stream_call list)" where
  "dumpData_loop host b out =
     (if available b > 0 then
        (case read b of
           Inl e \<Rightarrow> Inl e
         | Inr (v, b') \<Rightarrow>
             dumpData_loop host b' (out @ [Write_buf (native_bytes host (ucast v))]))
      else Inr (b, out))"
  by pat_completeness auto
termination
  by (relation "measure (\<lambda>(host, b, out). available_count b)")
     (auto simp: read_def available_def Let_def split: if_splits)

text \<open>
  \<^verbatim>\<open>dumpData\<close> (lines 587--595).  Its first statement passes
  \<^verbatim>\<open>buffer_ptr->available()\<close> to \<^verbatim>\<open>printLog\<close> (line 588), before the test for null
  pointers of line 589: without a buffer the call is a null-pointer fault, and the
  test only catches the missing pin reader.
\<close>

definition dumpData ::
  "endian \<Rightarrow> ('a::len) word LogicAnalyzer \<Rightarrow> error + 'a word LogicAnalyzer" where
  "dumpData host la =
     (case buffer_ptr la of
        None \<Rightarrow> Inl NullPointer
      | Some b \<Rightarrow>
          if \<not> impl_ptr la then Inr la
          else (case dumpData_loop host b (stream_out la) of
                  Inl e \<Rightarrow> Inl e
                | Inr (b', out) \<Rightarrow>
                    Inr (emit Flush (la\<lparr>buffer_ptr := Some b', stream_out := out\<rparr>))))"

text \<open>
  The third part of \<^verbatim>\<open>capture\<close>, ``Start Capture'' (lines 297--316), and
  \<^verbatim>\<open>capture\<close> itself (lines 270--318).  After a batch capture,
  \<^verbatim>\<open>buffer_ptr->available()\<close> is an argument of \<^verbatim>\<open>printLog\<close> (lines 304 and 313).
\<close>

definition capture_start ::
  "endian \<Rightarrow> bool \<Rightarrow> bool \<Rightarrow> ('a::len) word list \<Rightarrow> 'a word LogicAnalyzer
     \<Rightarrow> (error + 'a word LogicAnalyzer \<times> 'a word list) option" where
  "capture_start host is_max_speed is_dump samples la =
     (if is_continuous_capture la then
        (if is_max_speed then captureAllContinousMaxSpeed host samples la
         else captureAllContinous host samples la)
      else
        (case (if is_max_speed then captureAllMaxSpeed samples la else captureAll samples la) of
           None \<Rightarrow> None
         | Some (Inl e) \<Rightarrow> Some (Inl e)
         | Some (Inr (la1, rest)) \<Rightarrow>
             (let la2 = setStatus STOPPED la1 in
              if buffer_ptr la2 = None then Some (Inl NullPointer)
              else if is_dump then
                (case dumpData host la2 of
                   Inl e \<Rightarrow> Some (Inl e)
                 | Inr la3 \<Rightarrow> Some (Inr (la3, rest)))
              else Some (Inr (la2, rest)))))"

definition capture ::
  "endian \<Rightarrow> bool \<Rightarrow> bool \<Rightarrow> ('a::len) word list \<Rightarrow> 'a word LogicAnalyzer
     \<Rightarrow> (error + 'a word LogicAnalyzer \<times> 'a word list) option" where
  "capture host is_max_speed is_dump samples la =
     (case capture_trigger host samples la of
        None \<Rightarrow> None
      | Some (Inl e) \<Rightarrow> Some (Inl e)
      | Some (Inr (la1, rest)) \<Rightarrow>
          (case capture_buffer la1 of
             Inl e \<Rightarrow> Some (Inl e)
           | Inr la2 \<Rightarrow> capture_start host is_max_speed is_dump rest la2))"

text \<open>
  \<^verbatim>\<open>setCaptureFrequency\<close> (lines 443--449).  The delay is computed in double
  precision, \<^verbatim>\<open>(1000000.0 / value) - 1\<close>, and converted to \<^verbatim>\<open>uint64_t\<close>.  With
  \<open>value = 0\<close> the quotient is not a number that the conversion can handle.
\<close>

definition setCaptureFrequency ::
  "64 word \<Rightarrow> 's LogicAnalyzer \<Rightarrow> error + 's LogicAnalyzer" where
  "setCaptureFrequency v la =
     (if v = 0 then Inl Unrepresentable
      else
        let quotient = to_double (1000000 / to_double (real (unat v)));
            difference = to_double (quotient - 1)
        in case double_to_u64 difference of
             Inl e \<Rightarrow> Inl e
           | Inr us \<Rightarrow>
               Inr (raiseEvent CAPTURE_FREQUNCY (la\<lparr>frequecy_value := v, delay_time_us := us\<rparr>)))"

text \<open>
  \<^verbatim>\<open>setupDelay\<close> (lines 611--615): \<^verbatim>\<open>100000000l / (divider + 1)\<close> in
  \<^verbatim>\<open>unsigned long\<close>, where \<open>divider + 1\<close> wraps around to 0 at the largest divider.
\<close>

definition setupDelay :: "32 word \<Rightarrow> 's LogicAnalyzer \<Rightarrow> error + 's LogicAnalyzer" where
  "setupDelay divider la =
     (if \<not> impl_ptr la then Inr la
      else if divider + 1 = 0 then Inl DivisionByZero
      else setCaptureFrequency (ucast ((100000000 :: 32 word) div (divider + 1))) la)"

text \<open>\<^verbatim>\<open>setTriggerValues\<close> (lines 393--397) and \<^verbatim>\<open>setTriggerMask\<close> (lines 405--409).\<close>

definition setTriggerValues :: "'s \<Rightarrow> 's LogicAnalyzer \<Rightarrow> 's LogicAnalyzer" where
  "setTriggerValues v la = raiseEvent TRIGGER_VALUES (la\<lparr>trigger_values := v\<rparr>)"

definition setTriggerMask :: "'s \<Rightarrow> 's LogicAnalyzer \<Rightarrow> 's LogicAnalyzer" where
  "setTriggerMask v la = raiseEvent TRIGGER_MASK (la\<lparr>trigger_mask := v\<rparr>)"

text \<open>
  \<^verbatim>\<open>reset\<close> (lines 467--472).  \<^verbatim>\<open>memset\<close> zeroes \<open>max_capture_size\<close> entries of the
  buffer's storage.
\<close>

definition reset :: "('s::zero) LogicAnalyzer \<Rightarrow> error + 's LogicAnalyzer" where
  "reset la =
     (let la1 = setStatus STOPPED la in
      case buffer_ptr la1 of
        None \<Rightarrow> Inl NullPointer
      | Some b \<Rightarrow>
          if max_capture_size la1 > length (data b) then Inl OutOfBounds
          else
            let b1 = b\<lparr>data := replicate (max_capture_size la1) 0
                                @ drop (max_capture_size la1) (data b)\<rparr>
            in Inr (raiseEvent RESET (la1\<lparr>buffer_ptr := Some (clear b1)\<rparr>)))"

text \<open>\<^verbatim>\<open>sendMetadata\<close> (lines 622--635).\<close>

definition sendMetadata :: "endian \<Rightarrow> 's LogicAnalyzer \<Rightarrow> 's LogicAnalyzer" where
  "sendMetadata host la =
     (if \<not> impl_ptr la then la
      else
        let la1 = write_str 0x01 description la;
            la2 = write_number host 0x20 (word_of_int (pin_numbers la1)) la1;
            la3 = write_number host 0x21 (word_of_nat (max_capture_size la2)) la2;
            la4 = write_number host 0x23 (ucast (frequecy_value la3)) la3;
            la5 = emit (Write_buf (protocol_version @ [0])) la4
        in emit Flush la5)"

text \<open>\<^verbatim>\<open>commandExtPinBitArray\<close> (lines 574--584), on the argument that
  \<^verbatim>\<open>commandExt\<close> read from the stream.\<close>

definition commandExtPinBitArray :: "Sump4ByteComandArg \<Rightarrow> error + ('a::len) word" where
  "commandExtPinBitArray cmd =
     (if LENGTH('a) div 8 = 1 then Inr (ucast (getPtr cmd ! 0))
      else if LENGTH('a) div 8 = 2 then
        (case get16 cmd 0 of Inl e \<Rightarrow> Inl e | Inr h \<Rightarrow> Inr (ucast h))
      else Inr (ucast (get32 cmd)))"

text \<open>
  \<^verbatim>\<open>processCommand(int cmd)\<close> (lines 640--757).  \<open>now\<close> is what \<^verbatim>\<open>millis()\<close>
  returns, an \<^verbatim>\<open>unsigned long\<close>, while the command is processed; \<open>arg\<close> is the
  argument that \<^verbatim>\<open>commandExt\<close> reads for the commands that have one; \<open>samples\<close>
  are the values that the pin reader returns from now on.
\<close>

definition processCommand ::
  "endian \<Rightarrow> 32 word \<Rightarrow> int \<Rightarrow> Sump4ByteComandArg \<Rightarrow> ('a::len) word list
     \<Rightarrow> 'a word LogicAnalyzer \<Rightarrow> (error + 'a word LogicAnalyzer \<times> 'a word list) option" where
  "processCommand host now cmd arg samples la =
     (if buffer_ptr la = None \<or> \<not> impl_ptr la then Some (Inr (la, samples))
      else if cmd = 0x00 then
        (if ucast now > sump_reset_igorne_timeout la
         then Some (Inr (la\<lparr>sump_reset_igorne_timeout := ucast (now + 500)\<rparr>, samples))
         else Some (Inr (la, samples)))
      else if cmd = 0x02 then
        Some (Inr (emit Flush (emit (Write_buf device_id) la), samples))
      else if cmd = 0x04 then Some (Inr (sendMetadata host la, samples))
      else if cmd = 0x01 then
        (let la1 = setStatus ARMED la in
         capture host (frequecy_value la1 \<ge> max_frequecy_threshold la1) True samples la1)
      else if cmd = 0xC0 then
        (case commandExtPinBitArray arg of
           Inl e \<Rightarrow> Some (Inl e)
         | Inr v \<Rightarrow> Some (Inr (setTriggerMask v la, samples)))
      else if cmd = 0xC1 then
        (case commandExtPinBitArray arg of
           Inl e \<Rightarrow> Some (Inl e)
         | Inr v \<Rightarrow> Some (Inr (setTriggerValues v la, samples)))
      else if cmd = 0xC2 then Some (Inr (la, samples))
      else if cmd = 0x80 then
        (case setupDelay (get32 arg) la of
           Inl e \<Rightarrow> Some (Inl e)
         | Inr la' \<Rightarrow> Some (Inr (la', samples)))
      else if cmd = 0x81 then
        (case get16 arg 0 of
           Inl e \<Rightarrow> Some (Inl e)
         | Inr rc \<Rightarrow>
             (case get16 arg 1 of
                Inl e \<Rightarrow> Some (Inl e)
              | Inr dc \<Rightarrow>
                  Some (Inr (raiseEvent READ_DLEAY_COUNT
                    (la\<lparr>read_count := int (min (unat rc) (max_capture_size la)),
                       delay_count := int (min (unat dc) (max_capture_size la))\<rparr>), samples))))
      else if cmd = 0x82 then
        Some (Inr (raiseEvent FLAGS
          (la\<lparr>is_continuous_capture := (getPtr arg ! 1 AND 0x40 \<noteq> 0)\<rparr>), samples))
      else Some (Inr (la, samples)))"

text \<open>
  \<^verbatim>\<open>begin\<close> (lines 218--249) on a default-constructed analyzer: the members with
  an initializer have its value.  \<open>frequecy_value\<close>, \<open>delay_time_us\<close> and the other
  members without one are indeterminate in C++; they are 0 here.  The frequencies
  and the size are \<^verbatim>\<open>uint32_t\<close>, the pins \<^verbatim>\<open>uint8_t\<close>; \<open>read_count\<close> and
  \<open>delay_count\<close> are \<^verbatim>\<open>int\<close>, so that a size from \<open>2\<^sup>3\<^sup>1\<close> on is stored in them as a
  negative number.  \<open>alloc_ok\<close> is passed on to the constructor of the ring buffer,
  \<open>handler\<close> says whether \<^verbatim>\<open>setEventHandler\<close> was called before.  Pin modes and the
  LED are left out.
\<close>

definition begin_la ::
  "bool \<Rightarrow> bool \<Rightarrow> bool \<Rightarrow> 32 word \<Rightarrow> 32 word \<Rightarrow> 32 word \<Rightarrow> 8 word \<Rightarrow> 8 word
     \<Rightarrow> ('s::zero) LogicAnalyzer" where
  "begin_la handler impl alloc_ok maxCaptureFreq maxCaptureFreqThreshold maxCaptureSize
       pinStart numberOfPins =
     setStatus STOPPED
       \<lparr>is_continuous_capture = False,
        max_capture_size = unat maxCaptureSize,
        read_count = sint maxCaptureSize,
        delay_count = sint maxCaptureSize,
        pin_start = uint pinStart,
        pin_numbers = uint numberOfPins,
        frequecy_value = 0,
        max_frequecy_value = ucast maxCaptureFreq,
        max_frequecy_threshold = ucast maxCaptureFreqThreshold,
        delay_time_us = 0,
        sump_reset_igorne_timeout = 0,
        status_value = STOPPED,
        trigger_mask = 0,
        trigger_values = 0,
        impl_ptr = impl,
        buffer_ptr = Some (RingBuffer_new (unat maxCaptureSize) alloc_ok),
        eventHandler = handler,
        raised = [],
        stream_out = []\<rparr>"

text \<open>The trigger condition of line 275: the sample agrees with \<open>v\<close> on the bits of \<open>m\<close>.\<close>

definition matches :: "('a::len) word \<Rightarrow> 'a word \<Rightarrow> 'a word \<Rightarrow> bool" where
  "matches v m s \<longleftrightarrow> (v XOR s) AND m = 0"

text \<open>The test of the loop at line 275 for the trigger of an analyzer.\<close>

definition no_match :: "('a::len) word LogicAnalyzer \<Rightarrow> 'a word \<Rightarrow> bool" where
  "no_match la s \<longleftrightarrow> \<not> matches (trigger_values la) (trigger_mask la) s"

section \<open>States used as examples\<close>

text \<open>A buffer of capacity 2 after \<^verbatim>\<open>write(1); write(2)\<close>.\<close>

definition ring2_full :: "8 word RingBuffer" where
  "ring2_full = \<lparr>available_count = 2, size_count = 2, write_pos = 2, read_pos = 0,
                  ignore_count = 0, data = [1, 2]\<rparr>"

text \<open>The same buffer after \<^verbatim>\<open>clear(3)\<close>: empty, one write to drop.\<close>

definition ring2_cleared :: "8 word RingBuffer" where
  "ring2_cleared = \<lparr>available_count = 0, size_count = 2, write_pos = 2, read_pos = 2,
                     ignore_count = 1, data = [1, 2]\<rparr>"

text \<open>A buffer of capacity 4 after \<^verbatim>\<open>write(1); write(2); write(3)\<close>.\<close>

definition ring4_three :: "8 word RingBuffer" where
  "ring4_three = \<lparr>available_count = 3, size_count = 4, write_pos = 3, read_pos = 0,
                   ignore_count = 0, data = [1, 2, 3, 0]\<rparr>"

text \<open>
  An analyzer for 8-bit samples after \<^verbatim>\<open>begin\<close> with a capture size of 4, whose
  buffer holds these three samples, with the given read and delay counts.
\<close>

definition window_example :: "int \<Rightarrow> int \<Rightarrow> 8 word LogicAnalyzer" where
  "window_example rc dc =
     (begin_la True True True 1000000 500000 4 0 8)
       \<lparr>read_count := rc, delay_count := dc, buffer_ptr := Some ring4_three\<rparr>"

text \<open>
  Analyzers for 8-bit samples as \<^verbatim>\<open>processCommand\<close> leaves them at the start of
  \<^verbatim>\<open>SUMP_ARM\<close>: one that waits for pin 0 to be high, one without a trigger.
\<close>

definition armed_example :: "8 word LogicAnalyzer" where
  "armed_example =
     setStatus ARMED (setTriggerValues 1 (setTriggerMask 1
       (begin_la True True True 1000000 500000 4 0 8)))"

definition armed_nomask :: "8 word LogicAnalyzer" where
  "armed_nomask = setStatus ARMED (begin_la True True True 1000000 500000 4 0 8)"

text \<open>
  The analyzer with three buffered samples after \<^verbatim>\<open>setStatus(ARMED)\<close>; its event
  handler is installed and no reset has been processed yet.
\<close>

definition reset_example :: "8 word LogicAnalyzer" where
  "reset_example = setStatus ARMED (window_example 4 4)"

text \<open>An analyzer about to dump three samples, and the analyzer after the dump on a
  little-endian host.\<close>

definition dump_example :: "8 word LogicAnalyzer" where
  "dump_example = window_example 4 4"

definition dump_result :: "8 word LogicAnalyzer" where
  "dump_result =
     dump_example\<lparr>buffer_ptr := Some (ring4_three\<lparr>read_pos := 3, available_count := 0\<rparr>),
                  stream_out := [Write_buf [1, 0, 0, 0], Write_buf [2, 0, 0, 0],
                                 Write_buf [3, 0, 0, 0], Flush]\<rparr>"

text \<open>Analyzers of 16 and of 32 pins about to dump one sample, \<^verbatim>\<open>0x0102\<close> and
  \<^verbatim>\<open>0x01020304\<close>, and the analyzers after the dump on a little-endian host.\<close>

definition ring16_one :: "16 word RingBuffer" where
  "ring16_one = \<lparr>available_count = 1, size_count = 4, write_pos = 1, read_pos = 0,
                  ignore_count = 0, data = [0x0102, 0, 0, 0]\<rparr>"

definition ring32_one :: "32 word RingBuffer" where
  "ring32_one = \<lparr>available_count = 1, size_count = 4, write_pos = 1, read_pos = 0,
                  ignore_count = 0, data = [0x01020304, 0, 0, 0]\<rparr>"

definition dump_example16 :: "16 word LogicAnalyzer" where
  "dump_example16 =
     (begin_la True True True 1000000 500000 4 0 16)\<lparr>buffer_ptr := Some ring16_one\<rparr>"

definition dump_example32 :: "32 word LogicAnalyzer" where
  "dump_example32 =
     (begin_la True True True 1000000 500000 4 0 32)\<lparr>buffer_ptr := Some ring32_one\<rparr>"

definition dump_result16 :: "16 word LogicAnalyzer" where
  "dump_result16 =
     dump_example16\<lparr>buffer_ptr := Some (ring16_one\<lparr>read_pos := 1, available_count := 0\<rparr>),
                    stream_out := [Write_buf [2, 1, 0, 0], Flush]\<rparr>"

definition dump_result32 :: "32 word LogicAnalyzer" where
  "dump_result32 =
     dump_example32\<lparr>buffer_ptr := Some (ring32_one\<lparr>read_pos := 1, available_count := 0\<rparr>),
                    stream_out := [Write_buf [4, 3, 2, 1], Flush]\<rparr>"

section \<open>Byte order\<close>

text \<open>\<^verbatim>\<open>htonl\<close> followed by a write of the bytes in memory puts the most significant
  byte first on either host.\<close>

lemma htonl_examples:
  "htonl LittleEndian 0x01020304 = 0x04030201"
  "htonl BigEndian 0x01020304 = 0x01020304"
  "native_bytes LittleEndian (htonl LittleEndian 0x01020304) = [1, 2, 3, 4]"
  "native_bytes BigEndian (htonl BigEndian 0x01020304) = [1, 2, 3, 4]"
  by (simp_all add: htonl_def native_word_def native_bytes_def be_bytes_def be_word_def)

section \<open>Properties of the ring buffer\<close>

lemma rb_inv_new: "rb_inv (RingBuffer_new n ok)"
  by (simp add: rb_inv_def RingBuffer_new_def Let_def)

lemma write_inv:
  assumes "rb_inv b" and "write_rb v b = Inr b'"
  shows "rb_inv b'"
  using assms by (auto simp: rb_inv_def write_rb_def Let_def split: if_splits)

lemma write_available_le:
  assumes "available_count b \<le> size_count b" and "write_rb v b = Inr b'"
  shows "available_count b' \<le> size_count b' \<and> size_count b' = size_count b"
  using assms by (auto simp: write_rb_def Let_def split: if_splits)

lemma read_inv:
  assumes "rb_inv b" and "available_count b > 0"
  shows "read b = Inr (data b ! read_pos b,
           b\<lparr>read_pos := read_pos b + 1, available_count := available_count b - 1\<rparr>)"
  using assms by (auto simp: read_def rb_inv_def Let_def)

text \<open>
  With the cursors in step, \<^verbatim>\<open>clear(n)\<close> returns: it moves the read cursor over
  the entries it removes and leaves the rest of what exceeds them in \<open>ignore_count\<close>.
\<close>

lemma clear_loop_inv:
  assumes "rb_inv b"
  shows "clear_loop k b =
     Inr (b\<lparr>read_pos := read_pos b + min k (available_count b),
            available_count := available_count b - k\<rparr>)"
  using assms
proof (induction k arbitrary: b)
  case 0
  then show ?case by simp
next
  case (Suc k)
  show ?case
  proof (cases "available_count b > 0")
    case True
    let ?b = "b\<lparr>read_pos := read_pos b + 1, available_count := available_count b - 1\<rparr>"
    have inv: "rb_inv ?b" using Suc.prems True by (auto simp: rb_inv_def)
    have "clear_loop (Suc k) b = clear_loop k ?b"
      using True read_inv [OF Suc.prems True] by (simp add: available_def)
    also have "\<dots> = Inr (?b\<lparr>read_pos := read_pos ?b + min k (available_count ?b),
            available_count := available_count ?b - k\<rparr>)"
      by (rule Suc.IH [OF inv])
    finally show ?thesis using True by (simp add: min_def)
  next
    case False
    then show ?thesis by (simp add: available_def)
  qed
qed

lemma clear_n_inv:
  assumes "rb_inv b"
  shows "clear_n n b =
     Inr (b\<lparr>ignore_count := n - available_count b,
            read_pos := read_pos b + min n (available_count b),
            available_count := available_count b - n\<rparr>)"
proof -
  let ?b1 = "b\<lparr>ignore_count := n - available_count b\<rparr>"
  have "clear_n n b = clear_loop n ?b1"
    by (auto simp: clear_n_def Let_def)
  moreover have "rb_inv ?b1" using assms by (simp add: rb_inv_def)
  ultimately show ?thesis by (simp add: clear_loop_inv)
qed

text \<open>As many writes as \<open>ignore_count\<close> allows are dropped: only the counter changes.\<close>

lemma writes_dropped:
  "length vs \<le> ignore_count b \<Longrightarrow>
     writes vs b = Inr (b\<lparr>ignore_count := ignore_count b - length vs\<rparr>)"
proof (induction vs arbitrary: b)
  case Nil
  then show ?case by simp
next
  case (Cons v vs)
  then show ?case by (simp add: write_rb_def)
qed

text \<open>
  A write that is not dropped stores at \<open>write_pos\<close>, and \<open>write_pos\<close> may have
  reached the capacity: the test for wrapping around (line 115) is
  \<^verbatim>\<open>write_pos > size_count\<close>, made after the store.
\<close>

lemma write_store:
  assumes "rb_inv b" and "ignore_count b = 0"
  shows "write_rb v b =
     (if write_pos b < size_count b
      then Inr (b\<lparr>data := (data b)[write_pos b := v], write_pos := write_pos b + 1,
                  available_count := available_count b + 1\<rparr>)
      else Inl OutOfBounds)"
  using assms by (auto simp: write_rb_def rb_inv_def Let_def)

lemma writes_overflow:
  assumes "rb_inv b" and "ignore_count b = 0" and "size_count b - write_pos b < length vs"
  shows "writes vs b = Inl OutOfBounds"
  using assms
proof (induction vs arbitrary: b)
  case Nil
  then show ?case by simp
next
  case (Cons v vs)
  show ?case
  proof (cases "write_pos b < size_count b")
    case True
    let ?b = "b\<lparr>data := (data b)[write_pos b := v], write_pos := write_pos b + 1,
                  available_count := available_count b + 1\<rparr>"
    have w: "write_rb v b = Inr ?b" using write_store [OF Cons.prems(1,2)] True by simp
    have "rb_inv ?b" using write_inv [OF Cons.prems(1) w] .
    moreover have "ignore_count ?b = 0" using Cons.prems(2) by simp
    moreover have "size_count ?b - write_pos ?b < length vs" using Cons.prems(3) True by simp
    ultimately have "writes vs ?b = Inl OutOfBounds" by (rule Cons.IH)
    then show ?thesis using w by simp
  next
    case False
    then show ?thesis using write_store [OF Cons.prems(1,2)] by simp
  qed
qed

text \<open>Every call that returns keeps the cursors in step.\<close>

lemma read_keeps_inv:
  assumes "rb_inv b" and "read b = Inr (v, b')"
  shows "rb_inv b'"
  using assms by (auto simp: read_def rb_inv_def Let_def split: if_splits)

lemma clear_inv: "rb_inv b \<Longrightarrow> rb_inv (clear b)"
  by (simp add: rb_inv_def clear_def)

lemma clear_n_keeps_inv:
  assumes "rb_inv b" and "clear_n n b = Inr b'"
  shows "rb_inv b'"
  using assms clear_n_inv [OF assms(1), of n] by (auto simp: rb_inv_def)

text \<open>
  Inside the storage, a write that is not dropped appends its value to what
  \<^verbatim>\<open>read\<close> will deliver: as long as the writes since the last \<^verbatim>\<open>clear()\<close> do not
  exceed the capacity, the buffer is a queue.
\<close>

lemma contents_write:
  assumes "rb_inv b" and "ignore_count b = 0" and "write_pos b < size_count b"
  shows "\<exists>b'. write_rb v b = Inr b' \<and> rb_inv b' \<and> ignore_count b' = 0 \<and>
           size_count b' = size_count b \<and> contents b' = contents b @ [v]"
proof -
  let ?b = "b\<lparr>data := (data b)[write_pos b := v], write_pos := write_pos b + 1,
                  available_count := available_count b + 1\<rparr>"
  have w: "write_rb v b = Inr ?b" using write_store [OF assms(1,2)] assms(3) by simp
  define r where "r = read_pos b"
  define a where "a = available_count b"
  define xs where "xs = data b"
  have wp: "write_pos b = r + a" and lt: "r + a < length xs"
    using assms(1,3) by (auto simp: rb_inv_def r_def a_def xs_def)
  have "drop r (xs[r + a := v]) = (drop r xs)[a := v]"
    by (simp add: drop_update_swap)
  moreover have "a < length (drop r xs)" using lt by simp
  ultimately have "take (Suc a) (drop r (xs[r + a := v])) = take a (drop r xs) @ [v]"
    by (simp add: take_Suc_conv_app_nth)
  then have "take (Suc (available_count b)) (drop (read_pos b) ((data b)[write_pos b := v])) =
        take (available_count b) (drop (read_pos b) (data b)) @ [v]"
    unfolding wp unfolding r_def a_def xs_def .
  then have "contents ?b = contents b @ [v]" by (simp add: contents_def)
  then show ?thesis using w write_inv [OF assms(1) w] assms(2) by auto
qed

lemma writes_within_capacity:
  assumes "rb_inv b" and "ignore_count b = 0" and "write_pos b + length vs \<le> size_count b"
  shows "\<exists>b'. writes vs b = Inr b' \<and> rb_inv b' \<and> contents b' = contents b @ vs"
  using assms
proof (induction vs arbitrary: b)
  case Nil
  then show ?case by simp
next
  case (Cons v vs)
  obtain b1 where b1: "write_rb v b = Inr b1" "rb_inv b1" "ignore_count b1 = 0"
      "size_count b1 = size_count b" "contents b1 = contents b @ [v]"
    using contents_write [OF Cons.prems(1,2), of v] Cons.prems(3) by auto
  have "write_pos b1 = write_pos b + 1"
    using b1(1) write_store [OF Cons.prems(1,2), of v] Cons.prems(3) by auto
  then have "write_pos b1 + length vs \<le> size_count b1" using Cons.prems(3) b1(4) by simp
  from Cons.IH [OF b1(2,3) this] b1 show ?case by auto
qed

text \<open>
  C1: the specification says that more than \<open>C\<close> writes to a buffer of capacity
  \<open>C\<close> leave the \<open>C\<close> most recent values to be read in order, the oldest ones
  being overwritten.  In the code, every such sequence of writes to a new buffer
  stores outside the storage of the buffer: the write after the \<open>C\<close>-th one puts
  its value in \<^verbatim>\<open>data[C]\<close>.  (The number of available entries never exceeds \<open>C\<close>:
  \<open>write_available_le\<close>.)
\<close>

theorem writes_beyond_capacity_out_of_bounds:
  "C < length vs \<Longrightarrow> writes vs (RingBuffer_new C True) = Inl OutOfBounds"
  by (rule writes_overflow [OF rb_inv_new]) (simp_all add: RingBuffer_new_def)

theorem writes_beyond_capacity_witness:
  "(2::nat) < length [1, 2, 3 :: 8 word] \<and>
   writes [1, 2, 3 :: 8 word] (RingBuffer_new 2 True) = Inl OutOfBounds"
  using writes_beyond_capacity_out_of_bounds [of 2 "[1, 2, 3 :: 8 word]"] by simp

text \<open>
  C4: the specification says that a buffer without storage takes every write as a
  no-op that does not touch the storage.  In the code, the write stores at
  \<^verbatim>\<open>data[0]\<close>, whether the allocation failed or the buffer was built with
  capacity 0.
\<close>

theorem write_without_storage_out_of_bounds:
  "write_rb v (RingBuffer_new n False) = Inl OutOfBounds \<and>
   write_rb v (RingBuffer_new 0 True) = Inl OutOfBounds"
  by (simp add: RingBuffer_new_def write_rb_def)

text \<open>Reading such a buffer and asking what it holds do as the specification says.\<close>

lemma read_without_storage:
  "read (RingBuffer_new n False) = Inr (0, RingBuffer_new n False) \<and>
   available (RingBuffer_new n False) = 0"
  by (simp add: read_def RingBuffer_new_def available_def)

text \<open>
  C7: the specification says that \<^verbatim>\<open>clear(n)\<close> with more than the available
  entries empties the buffer, that the next \<open>n - available\<close> writes are dropped and
  that the writes after them are stored again.  In a full buffer of capacity 2,
  \<^verbatim>\<open>clear(3)\<close> leaves no entry and one write to drop, the write of 9 is dropped,
  and the write of 7, the first one not dropped, stores outside the storage.  (What
  \<^verbatim>\<open>clear(n)\<close> does to the counters is in \<open>clear_n_inv\<close>, the dropped writes in
  \<open>writes_dropped\<close>.)
\<close>

theorem write_after_dropped_out_of_bounds:
  "writes [1, 2] (RingBuffer_new 2 True) = Inr ring2_full \<and>
   clear_n 3 ring2_full = Inr ring2_cleared \<and>
   available ring2_cleared = 0 \<and>
   write_rb 9 ring2_cleared = Inr (ring2_cleared\<lparr>ignore_count := 0\<rparr>) \<and>
   write_rb 7 (ring2_cleared\<lparr>ignore_count := 0\<rparr>) = Inl OutOfBounds"
  by (simp add: RingBuffer_new_def write_rb_def ring2_full_def ring2_cleared_def
      clear_n_def read_def available_def Let_def numeral_3_eq_3 numeral_2_eq_2)

text \<open>
  C10: \<^verbatim>\<open>read()\<close> on an empty buffer returns the zero value and changes no field of
  the buffer.
\<close>

theorem read_empty_unchanged:
  "available b = 0 \<Longrightarrow> read b = Inr (0, b)"
  by (simp add: read_def available_def)

theorem read_empty_unchanged_witness:
  "available (RingBuffer_new 2 True :: nat RingBuffer) = 0 \<and>
   read (RingBuffer_new 2 True :: nat RingBuffer) = Inr (0, RingBuffer_new 2 True)"
  using read_empty_unchanged [of "RingBuffer_new 2 True :: nat RingBuffer"]
  by (simp add: available_def RingBuffer_new_def)

section \<open>The window around the trigger\<close>

lemma length_contents: "rb_inv b \<Longrightarrow> length (contents b) = available_count b"
  by (auto simp: contents_def rb_inv_def)

lemma contents_clear_n:
  assumes "rb_inv b" and "clear_n n b = Inr b'"
  shows "contents b' = drop n (contents b)"
proof -
  have b': "b' = b\<lparr>ignore_count := n - available_count b,
            read_pos := read_pos b + min n (available_count b),
            available_count := available_count b - n\<rparr>"
    using clear_n_inv [OF assms(1), of n] assms(2) by simp
  show ?thesis
  proof (cases "n \<le> available_count b")
    case True
    then show ?thesis
      by (simp add: b' contents_def drop_take min_def add.commute)
  next
    case False
    then show ?thesis by (simp add: b' contents_def)
  qed
qed

text \<open>
  C5: the window that \<^verbatim>\<open>capture\<close> cuts out of the buffer when the trigger has
  fired, with \<open>keep = read_count - delay_count\<close>.  Positive and less than what the
  buffer holds: the oldest entries go and the \<open>keep\<close> most recent ones stay.
  Negative: the buffer is emptied and \<open>ignore_count\<close> is \<open>|keep|\<close>, so that the
  next \<open>|keep|\<close> writes change nothing but that counter.  Zero: the buffer is
  cleared, cursors included.
\<close>

theorem capture_buffer_window:
  assumes "buffer_ptr la = Some b" and "rb_inv b"
    and "keep = read_count la - delay_count la"
  shows
    "(keep > 0 \<and> int (available b) > keep \<longrightarrow>
        (\<exists>b'. capture_buffer la = Inr (la\<lparr>buffer_ptr := Some b'\<rparr>) \<and>
              contents b' = drop (available b - nat keep) (contents b) \<and>
              available b' = nat keep \<and> ignore_count b' = 0)) \<and>
     (keep < 0 \<longrightarrow>
        (\<exists>b'. capture_buffer la = Inr (la\<lparr>buffer_ptr := Some b'\<rparr>) \<and>
              available b' = 0 \<and> ignore_count b' = nat \<bar>keep\<bar> \<and>
              (\<forall>vs. length vs = nat \<bar>keep\<bar> \<longrightarrow>
                    writes vs b' = Inr (b'\<lparr>ignore_count := 0\<rparr>)))) \<and>
     (keep = 0 \<longrightarrow>
        capture_buffer la = Inr (la\<lparr>buffer_ptr := Some (clear b)\<rparr>) \<and>
        available (clear b) = 0 \<and> ignore_count (clear b) = 0 \<and>
        read_pos (clear b) = 0 \<and> write_pos (clear b) = 0)"
proof (intro conjI impI)
  assume k: "keep > 0 \<and> int (available b) > keep"
  let ?n = "available b - nat keep"
  obtain b' where c: "clear_n ?n b = Inr b'"
    using clear_n_inv [OF assms(2)] by blast
  have lt: "nat keep < available b" using k by linarith
  have "capture_buffer la = Inr (la\<lparr>buffer_ptr := Some b'\<rparr>)"
    using k lt c assms(1,3) by (simp add: capture_buffer_def Let_def)
  moreover have "contents b' = drop ?n (contents b)"
    by (rule contents_clear_n [OF assms(2) c])
  moreover have "available b' = nat keep \<and> ignore_count b' = 0"
    using c k lt clear_n_inv [OF assms(2), of ?n] by (auto simp: available_def)
  ultimately show "\<exists>b'. capture_buffer la = Inr (la\<lparr>buffer_ptr := Some b'\<rparr>) \<and>
              contents b' = drop (available b - nat keep) (contents b) \<and>
              available b' = nat keep \<and> ignore_count b' = 0"
    by blast
next
  assume k: "keep < 0"
  let ?n = "available b + nat \<bar>keep\<bar>"
  obtain b' where c: "clear_n ?n b = Inr b'"
    using clear_n_inv [OF assms(2)] by blast
  have cb: "capture_buffer la = Inr (la\<lparr>buffer_ptr := Some b'\<rparr>)"
    using k c assms(1,3) by (simp add: capture_buffer_def Let_def)
  have f: "available b' = 0 \<and> ignore_count b' = nat \<bar>keep\<bar>"
    using c k clear_n_inv [OF assms(2), of ?n] by (auto simp: available_def)
  have "\<forall>vs. length vs = nat \<bar>keep\<bar> \<longrightarrow> writes vs b' = Inr (b'\<lparr>ignore_count := 0\<rparr>)"
    using f writes_dropped [of _ b'] by simp
  with cb f show "\<exists>b'. capture_buffer la = Inr (la\<lparr>buffer_ptr := Some b'\<rparr>) \<and>
              available b' = 0 \<and> ignore_count b' = nat \<bar>keep\<bar> \<and>
              (\<forall>vs. length vs = nat \<bar>keep\<bar> \<longrightarrow>
                    writes vs b' = Inr (b'\<lparr>ignore_count := 0\<rparr>))"
    by blast
next
  assume "keep = 0"
  then show "capture_buffer la = Inr (la\<lparr>buffer_ptr := Some (clear b)\<rparr>)"
    using assms(1,3) by (simp add: capture_buffer_def Let_def)
qed (simp_all add: clear_def available_def)

lemma window_example_simps:
  "buffer_ptr (window_example rc dc) = Some ring4_three"
  "read_count (window_example rc dc) = rc"
  "delay_count (window_example rc dc) = dc"
  "rb_inv ring4_three" "available ring4_three = 3" "contents ring4_three = [1, 2, 3]"
  by (simp_all add: window_example_def ring4_three_def rb_inv_def available_def contents_def)

theorem capture_buffer_window_witness:
  "(\<exists>b'. capture_buffer (window_example 4 2) = Inr ((window_example 4 2)\<lparr>buffer_ptr := Some b'\<rparr>) \<and>
         contents b' = [2, 3] \<and> available b' = 2 \<and> ignore_count b' = 0) \<and>
   (\<exists>b'. capture_buffer (window_example 2 4) = Inr ((window_example 2 4)\<lparr>buffer_ptr := Some b'\<rparr>) \<and>
         available b' = 0 \<and> ignore_count b' = 2 \<and>
         writes [7, 8] b' = Inr (b'\<lparr>ignore_count := 0\<rparr>)) \<and>
   capture_buffer (window_example 4 4) = Inr ((window_example 4 4)\<lparr>buffer_ptr := Some (clear ring4_three)\<rparr>) \<and>
   available (clear ring4_three) = 0"
proof -
  note w = window_example_simps
  have a: "\<exists>b'. capture_buffer (window_example 4 2) = Inr ((window_example 4 2)\<lparr>buffer_ptr := Some b'\<rparr>) \<and>
         contents b' = [2, 3] \<and> available b' = 2 \<and> ignore_count b' = 0"
    using capture_buffer_window [OF w(1) w(4), of 2 4 2] by (simp add: w)
  have b: "\<exists>b'. capture_buffer (window_example 2 4) = Inr ((window_example 2 4)\<lparr>buffer_ptr := Some b'\<rparr>) \<and>
         available b' = 0 \<and> ignore_count b' = 2 \<and>
         writes [7, 8] b' = Inr (b'\<lparr>ignore_count := 0\<rparr>)"
  proof -
    obtain b' where
      "capture_buffer (window_example 2 4) = Inr ((window_example 2 4)\<lparr>buffer_ptr := Some b'\<rparr>)"
      "available b' = 0" "ignore_count b' = 2"
      and all: "\<forall>vs. length vs = 2 \<longrightarrow> writes vs b' = Inr (b'\<lparr>ignore_count := 0\<rparr>)"
      using capture_buffer_window [OF w(1) w(4), of "-2" 2 4] by (auto simp: w)
    moreover have "writes [7, 8] b' = Inr (b'\<lparr>ignore_count := 0\<rparr>)"
      using all [rule_format, of "[7, 8]"] by simp
    ultimately show ?thesis by blast
  qed
  have c: "capture_buffer (window_example 4 4) = Inr ((window_example 4 4)\<lparr>buffer_ptr := Some (clear ring4_three)\<rparr>) \<and>
   available (clear ring4_three) = 0"
    using capture_buffer_window [OF w(1) w(4), of 0 4 4] by (simp add: w)
  from a b c show ?thesis by blast
qed

section \<open>The trigger\<close>

lemma no_match_stream_out [simp]:
  "no_match (la\<lparr>stream_out := out\<rparr>) = no_match la"
  by (simp add: no_match_def matches_def fun_eq_iff)

lemma captureSample_idle:
  assumes "impl_ptr la" and "status_value la \<noteq> TRIGGERED" and "\<not> is_continuous_capture la"
  shows "captureSample host s la = Inr (s, la)"
  using assms by (simp add: captureSample_def)

lemma captureSample_continuous:
  assumes "impl_ptr la" and "is_continuous_capture la"
  shows "captureSample host s la =
     Inr (s, la\<lparr>stream_out := stream_out la @ [Write_value (htonl host (ucast s))]\<rparr>)"
  using assms by (simp add: captureSample_def write_bits_def emit_def)

lemma trigger_wait_idle_none:
  assumes "impl_ptr la" and "status_value la \<noteq> TRIGGERED" and "\<not> is_continuous_capture la"
    and "\<forall>x\<in>set samples. no_match la x"
  shows "trigger_wait host samples la = None"
  using assms(4)
proof (induction samples)
  case Nil
  then show ?case by simp
next
  case (Cons x xs)
  then show ?case
    using captureSample_idle [OF assms(1-3), of host x] by (simp add: no_match_def matches_def)
qed

lemma trigger_wait_idle_some:
  assumes "impl_ptr la" and "status_value la \<noteq> TRIGGERED" and "\<not> is_continuous_capture la"
    and "\<forall>x\<in>set pre. no_match la x" and "\<not> no_match la s"
  shows "trigger_wait host (pre @ s # rest) la = Some (Inr (la, rest))"
  using assms(4)
proof (induction pre)
  case Nil
  then show ?case
    using assms(5) captureSample_idle [OF assms(1-3), of host s] by (simp add: no_match_def matches_def)
next
  case (Cons x xs)
  then show ?case
    using captureSample_idle [OF assms(1-3), of host x] by (simp add: no_match_def matches_def)
qed

lemma trigger_wait_continuous_none:
  assumes "impl_ptr la" and "is_continuous_capture la"
    and "\<forall>x\<in>set samples. no_match la x"
  shows "trigger_wait host samples la = None"
  using assms
proof (induction samples arbitrary: la)
  case Nil
  then show ?case by simp
next
  case (Cons x xs)
  let ?la = "la\<lparr>stream_out := stream_out la @ [Write_value (htonl host (ucast x))]\<rparr>"
  have "trigger_wait host xs ?la = None"
    using Cons.prems by (intro Cons.IH) simp_all
  then show ?case
    using Cons.prems captureSample_continuous [OF Cons.prems(1,2), of host x]
    by (simp add: no_match_def matches_def)
qed

lemma trigger_wait_continuous_some:
  assumes "impl_ptr la" and "is_continuous_capture la"
    and "\<forall>x\<in>set pre. no_match la x" and "\<not> no_match la s"
  shows "trigger_wait host (pre @ s # rest) la =
     Some (Inr (la\<lparr>stream_out := stream_out la @
                  map (\<lambda>x. Write_value (htonl host (ucast x))) (pre @ [s])\<rparr>, rest))"
  using assms
proof (induction pre arbitrary: la)
  case Nil
  then show ?case
    using captureSample_continuous [OF Nil.prems(1,2), of host s] by (simp add: no_match_def matches_def)
next
  case (Cons x xs)
  let ?la = "la\<lparr>stream_out := stream_out la @ [Write_value (htonl host (ucast x))]\<rparr>"
  have "trigger_wait host (xs @ s # rest) ?la =
     Some (Inr (?la\<lparr>stream_out := stream_out ?la @
                  map (\<lambda>x. Write_value (htonl host (ucast x))) (xs @ [s])\<rparr>, rest))"
    using Cons.prems by (intro Cons.IH) simp_all
  then show ?case
    using Cons.prems captureSample_continuous [OF Cons.prems(1,2), of host x]
    by (simp add: no_match_def matches_def)
qed


lemma trigger_wait_none:
  assumes "impl_ptr la" and "status_value la \<noteq> TRIGGERED"
    and "\<forall>x\<in>set samples. no_match la x"
  shows "trigger_wait host samples la = None"
  using assms trigger_wait_idle_none trigger_wait_continuous_none
  by (cases "is_continuous_capture la") blast+

lemma trigger_wait_some:
  assumes "impl_ptr la" and "status_value la \<noteq> TRIGGERED"
    and "\<forall>x\<in>set pre. no_match la x" and "\<not> no_match la s"
  shows "trigger_wait host (pre @ s # rest) la =
     Some (Inr (la\<lparr>stream_out := stream_out la @
                  (if is_continuous_capture la
                   then map (\<lambda>x. Write_value (htonl host (ucast x))) (pre @ [s])
                   else [])\<rparr>, rest))"
proof (cases "is_continuous_capture la")
  case True
  then show ?thesis using trigger_wait_continuous_some [OF assms(1) True assms(3,4)] by simp
next
  case False
  then show ?thesis using trigger_wait_idle_some [OF assms(1,2) False assms(3,4)] by simp
qed

lemma armed_example_simps:
  "status_value armed_example = ARMED" "\<not> is_continuous_capture armed_example"
  "impl_ptr armed_example" "trigger_mask armed_example = 1" "trigger_values armed_example = 1"
  "status_value armed_nomask = ARMED" "impl_ptr armed_nomask" "trigger_mask armed_nomask = 0"
  by (simp_all add: armed_example_def armed_nomask_def begin_la_def setStatus_def
      raiseEvent_def setTriggerValues_def setTriggerMask_def)

text \<open>
  C6: the trigger of an armed analyzer.  Without a mask the status becomes
  \<open>TRIGGERED\<close> at once and no sample is read.  With a mask, \<^verbatim>\<open>capture\<close> gets past
  the wait only on a sample that agrees with \<open>trigger_values\<close> on the bits of the
  mask, the first such sample of those read; as long as none does, the wait goes on;
  when one does, the status becomes \<open>TRIGGERED\<close> and the samples after it are still
  to be read.
\<close>

theorem capture_trigger_armed:
  assumes "status_value la = ARMED" and "impl_ptr la"
  shows
    "(trigger_mask la = 0 \<longrightarrow>
        capture_trigger host samples la = Some (Inr (setStatus TRIGGERED la, samples))) \<and>
     (trigger_mask la \<noteq> 0 \<longrightarrow>
        (\<forall>la' rest. capture_trigger host samples la = Some (Inr (la', rest)) \<longrightarrow>
           status_value la' = TRIGGERED \<and>
           (\<exists>pre s. samples = pre @ s # rest \<and>
              matches (trigger_values la) (trigger_mask la) s \<and>
              (\<forall>x\<in>set pre. \<not> matches (trigger_values la) (trigger_mask la) x))) \<and>
        ((\<forall>x\<in>set samples. \<not> matches (trigger_values la) (trigger_mask la) x) \<longrightarrow>
           capture_trigger host samples la = None) \<and>
        (\<forall>pre s rest.
           samples = pre @ s # rest \<and> matches (trigger_values la) (trigger_mask la) s \<and>
           (\<forall>x\<in>set pre. \<not> matches (trigger_values la) (trigger_mask la) x) \<longrightarrow>
           (\<exists>la'. capture_trigger host samples la = Some (Inr (la', rest)) \<and>
                  status_value la' = TRIGGERED)) \<and>
        (\<forall>e. capture_trigger host samples la \<noteq> Some (Inl e)))"
proof -
  have nt: "status_value la \<noteq> TRIGGERED" using assms(1) by simp
  have none: "capture_trigger host samples la = None"
    if "trigger_mask la \<noteq> 0" "\<forall>x\<in>set samples. no_match la x"
    using that trigger_wait_none [OF assms(2) nt that(2)] by (simp add: capture_trigger_def)
  have some: "\<exists>la'. capture_trigger host samples la = Some (Inr (la', rest)) \<and>
                  status_value la' = TRIGGERED"
    if "trigger_mask la \<noteq> 0" "samples = pre @ s # rest" "\<forall>x\<in>set pre. no_match la x"
      "\<not> no_match la s" for pre s rest
    using that trigger_wait_some [OF assms(2) nt that(3,4), of host rest]
    by (simp add: capture_trigger_def setStatus_def raiseEvent_def)
  have split: "(\<forall>x\<in>set samples. no_match la x) \<or>
     (\<exists>pre s rest. samples = pre @ s # rest \<and> \<not> no_match la s \<and> (\<forall>x\<in>set pre. no_match la x))"
    using split_list_first_prop [of samples "\<lambda>x. \<not> no_match la x"] by auto
  have ret: "status_value la' = TRIGGERED \<and>
           (\<exists>pre s. samples = pre @ s # rest \<and>
              matches (trigger_values la) (trigger_mask la) s \<and>
              (\<forall>x\<in>set pre. \<not> matches (trigger_values la) (trigger_mask la) x))"
    if m: "trigger_mask la \<noteq> 0" and r: "capture_trigger host samples la = Some (Inr (la', rest))"
    for la' rest
  proof -
    from split r none [OF m] obtain pre s rest' where
      d: "samples = pre @ s # rest'" "\<not> no_match la s" "\<forall>x\<in>set pre. no_match la x"
      by auto
    from some [OF m d(1) d(3) d(2)] r have "rest' = rest" "status_value la' = TRIGGERED"
      by auto
    with d show ?thesis by (auto simp: no_match_def)
  qed
  have nofault: "capture_trigger host samples la \<noteq> Some (Inl e)" if m: "trigger_mask la \<noteq> 0" for e
  proof
    assume f: "capture_trigger host samples la = Some (Inl e)"
    from split f none [OF m] obtain pre s rest where
      d: "samples = pre @ s # rest" "\<not> no_match la s" "\<forall>x\<in>set pre. no_match la x"
      by auto
    from some [OF m d(1) d(3) d(2)] f show False by auto
  qed
  show ?thesis
    using none some ret nofault
    by (auto simp: no_match_def capture_trigger_def)
qed

theorem capture_trigger_armed_witness:
  "capture_trigger LittleEndian [0, 2] armed_nomask =
     Some (Inr (setStatus TRIGGERED armed_nomask, [0, 2])) \<and>
   (\<exists>la'. capture_trigger LittleEndian [0, 2, 1, 5] armed_example = Some (Inr (la', [5])) \<and>
          status_value la' = TRIGGERED) \<and>
   matches (trigger_values armed_example) (trigger_mask armed_example) 1 \<and>
   capture_trigger LittleEndian [0, 2] armed_example = None"
proof -
  note a = armed_example_simps
  have m: "trigger_mask armed_example \<noteq> 0" by (simp add: a)
  have p1: "capture_trigger LittleEndian [0, 2] armed_nomask =
     Some (Inr (setStatus TRIGGERED armed_nomask, [0, 2]))"
    using capture_trigger_armed [OF a(6) a(7), of LittleEndian "[0, 2]"] a(8) by simp
  have p2: "\<exists>la'. capture_trigger LittleEndian [0, 2, 1, 5] armed_example = Some (Inr (la', [5])) \<and>
          status_value la' = TRIGGERED"
    using capture_trigger_armed [OF a(1) a(3), of LittleEndian "[0, 2, 1, 5]",
        THEN conjunct2, rule_format, OF m, THEN conjunct2, THEN conjunct2, THEN conjunct1,
        rule_format, of "[0, 2]" 1 "[5]"]
    by (simp add: a matches_def)
  have p3: "capture_trigger LittleEndian [0, 2] armed_example = None"
    using capture_trigger_armed [OF a(1) a(3), of LittleEndian "[0, 2]",
        THEN conjunct2, rule_format, OF m, THEN conjunct2, THEN conjunct1]
    by (simp add: a matches_def)
  show ?thesis using p1 p2 p3 by (simp add: a matches_def)
qed

text \<open>
  C9: while the analyzer is armed and not in continuous mode, \<^verbatim>\<open>captureSample\<close>
  returns the sample and changes nothing, so that the trigger wait leaves the
  analyzer, its ring buffer included, as it found it.
\<close>

theorem armed_samples_not_stored:
  assumes "status_value la = ARMED" and "\<not> is_continuous_capture la" and "impl_ptr la"
  shows "captureSample host s la = Inr (s, la) \<and>
         (\<forall>r. trigger_wait host samples la = Some r \<longrightarrow> (\<exists>rest. r = Inr (la, rest))) \<and>
         (\<forall>la' rest. capture_trigger host samples la = Some (Inr (la', rest)) \<longrightarrow>
            buffer_ptr la' = buffer_ptr la)"
proof -
  have nt: "status_value la \<noteq> TRIGGERED" using assms(1) by simp
  have split: "(\<forall>x\<in>set samples. no_match la x) \<or>
     (\<exists>pre s rest. samples = pre @ s # rest \<and> \<not> no_match la s \<and> (\<forall>x\<in>set pre. no_match la x))"
    using split_list_first_prop [of samples "\<lambda>x. \<not> no_match la x"] by auto
  have tw: "\<exists>rest. r = Inr (la, rest)" if "trigger_wait host samples la = Some r" for r
    using split that trigger_wait_idle_none [OF assms(3) nt assms(2), of samples host]
      trigger_wait_idle_some [OF assms(3) nt assms(2), of _ _ host]
    by auto
  have "buffer_ptr la' = buffer_ptr la"
    if "capture_trigger host samples la = Some (Inr (la', rest))" for la' rest
    using that tw
    by (auto simp: capture_trigger_def setStatus_def raiseEvent_def
        split: if_splits option.splits sum.splits)
  then show ?thesis
    using tw captureSample_idle [OF assms(3) nt assms(2)] by blast
qed


theorem armed_samples_not_stored_witness:
  "status_value armed_example = ARMED \<and> \<not> is_continuous_capture armed_example \<and>
   impl_ptr armed_example \<and>
   captureSample LittleEndian 2 armed_example = Inr (2, armed_example) \<and>
   trigger_wait LittleEndian [0, 2, 1, 5] armed_example = Some (Inr (armed_example, [5]))"
proof -
  note a = armed_example_simps
  have tw: "trigger_wait LittleEndian [0, 2, 1, 5] armed_example \<noteq> None"
    by (simp add: captureSample_def a)
  have "\<exists>rest. trigger_wait LittleEndian [0, 2, 1, 5] armed_example = Some (Inr (armed_example, rest))"
    using tw armed_samples_not_stored [OF a(1) a(2) a(3), of LittleEndian 2 "[0, 2, 1, 5]"]
    by auto
  moreover have "\<And>la' rest. trigger_wait LittleEndian [0, 2, 1, 5] armed_example = Some (Inr (la', rest))
    \<Longrightarrow> rest = [5]"
    by (simp add: captureSample_def a)
  ultimately have "trigger_wait LittleEndian [0, 2, 1, 5] armed_example = Some (Inr (armed_example, [5]))"
    by auto
  then show ?thesis
    using armed_samples_not_stored [OF a(1) a(2) a(3), of LittleEndian 2 "[0, 2, 1, 5]"] a
    by simp
qed

section \<open>The reset command\<close>

text \<open>
  What the dispatcher does for \<^verbatim>\<open>SUMP_RESET\<close> in any state: it moves the end of the
  cool-down, or does nothing.
\<close>

lemma processCommand_reset:
  "processCommand host now 0 arg samples la =
     Some (Inr (if buffer_ptr la \<noteq> None \<and> impl_ptr la \<and>
                   ucast now > sump_reset_igorne_timeout la
                then la\<lparr>sump_reset_igorne_timeout := ucast (now + 500)\<rparr> else la, samples))"
  by (simp add: processCommand_def)

text \<open>What \<^verbatim>\<open>reset()\<close> does; the dispatcher does not call it.\<close>

lemma reset_effect:
  assumes "buffer_ptr la = Some b" and "max_capture_size la \<le> length (data b)"
  shows "\<exists>la' b'. reset la = Inr la' \<and> status_value la' = STOPPED \<and>
           buffer_ptr la' = Some b' \<and> available b' = 0 \<and> ignore_count b' = 0 \<and>
           write_pos b' = 0 \<and> read_pos b' = 0 \<and>
           (eventHandler la \<longrightarrow> raised la' = raised la @ [STATUS, RESET])"
  using assms
  by (simp add: reset_def setStatus_def raiseEvent_def Let_def clear_def available_def)

lemma reset_keeps_inv:
  assumes "buffer_ptr la = Some b" and "rb_inv b" and "reset la = Inr la'"
  shows "\<exists>b'. buffer_ptr la' = Some b' \<and> rb_inv b'"
  using assms
  by (auto simp: reset_def setStatus_def raiseEvent_def Let_def clear_def rb_inv_def
      split: if_splits)

text \<open>
  C2: the specification says that a \<^verbatim>\<open>RESET\<close> outside the cool-down stops the
  session, clears the buffer and raises the \<open>RESET\<close> event.  In the code, the armed
  analyzer with three buffered samples that receives \<^verbatim>\<open>RESET\<close> at 1000 ms is
  still armed afterwards, holds the same three samples and has raised no event; only
  the end of the cool-down has moved to 1500 ms.
\<close>

theorem reset_command_only_debounces:
  "processCommand LittleEndian 1000 0x00 (Sump4ByteComandArg 0 0 0 0) [] reset_example =
     Some (Inr (reset_example\<lparr>sump_reset_igorne_timeout := 1500\<rparr>, [])) \<and>
   sump_reset_igorne_timeout reset_example = 0 \<and>
   status_value (reset_example\<lparr>sump_reset_igorne_timeout := 1500\<rparr>) = ARMED \<and>
   buffer_ptr (reset_example\<lparr>sump_reset_igorne_timeout := 1500\<rparr>) = Some ring4_three \<and>
   available ring4_three = 3 \<and>
   eventHandler reset_example \<and>
   raised (reset_example\<lparr>sump_reset_igorne_timeout := 1500\<rparr>) = raised reset_example"
  by (simp add: processCommand_def reset_example_def window_example_def begin_la_def
      setStatus_def raiseEvent_def ring4_three_def available_def)

section \<open>The dump\<close>

lemma contents_step:
  assumes "rb_inv b" and "available_count b > 0"
  shows "contents b = data b ! read_pos b #
     contents (b\<lparr>read_pos := read_pos b + 1, available_count := available_count b - 1\<rparr>)"
proof -
  have lt: "read_pos b < length (data b)" using assms by (auto simp: rb_inv_def)
  obtain k where k: "available_count b = Suc k" using assms(2) by (cases "available_count b") auto
  have "drop (read_pos b) (data b) = data b ! read_pos b # drop (Suc (read_pos b)) (data b)"
    using Cons_nth_drop_Suc [OF lt] by simp
  then show ?thesis by (simp add: contents_def k)
qed

declare dumpData_loop.simps [simp del]

lemma ring4_three_fields:
  "read_pos ring4_three = 0" "available_count ring4_three = 3"
  by (simp_all add: ring4_three_def)

lemma dumpData_loop_inv:
  assumes "rb_inv b"
  shows "dumpData_loop host b out =
     Inr (b\<lparr>read_pos := read_pos b + available_count b, available_count := 0\<rparr>,
          out @ map (\<lambda>v. Write_buf (native_bytes host (ucast v))) (contents b))"
  using assms
proof (induction n \<equiv> "available_count b" arbitrary: b out)
  case 0
  then show ?case by (subst dumpData_loop.simps) (simp add: available_def contents_def)
next
  case (Suc n)
  let ?b = "b\<lparr>read_pos := read_pos b + 1, available_count := available_count b - 1\<rparr>"
  have pos: "available_count b > 0" using Suc.hyps(2) by simp
  have inv: "rb_inv ?b" using Suc.prems pos by (auto simp: rb_inv_def)
  have n: "n = available_count ?b" using Suc.hyps(2) by simp
  have "dumpData_loop host b out =
     dumpData_loop host ?b (out @ [Write_buf (native_bytes host (ucast (data b ! read_pos b)))])"
    using pos read_inv [OF Suc.prems pos] by (subst dumpData_loop.simps) (simp add: available_def)
  also note Suc.hyps(1) [OF n inv]
  finally show ?case
    using contents_step [OF Suc.prems pos] pos by simp
qed

lemma native_bytes_little:
  "native_bytes LittleEndian w =
     [ucast w, ucast (drop_bit 8 w), ucast (drop_bit 16 w), ucast (drop_bit 24 w)]"
  by (simp add: native_bytes_def be_bytes_def)

lemma dumpData_emits:
  fixes la :: "('a::len) word LogicAnalyzer"
  assumes "buffer_ptr la = Some b" and "rb_inv b" and "impl_ptr la"
  shows "dumpData host la =
       Inr (la\<lparr>buffer_ptr :=
                  Some (b\<lparr>read_pos := read_pos b + available_count b, available_count := 0\<rparr>),
               stream_out := stream_out la @
                  map (\<lambda>v. Write_buf (native_bytes host (ucast v))) (contents b) @ [Flush]\<rparr>)"
  using assms(1,3) dumpData_loop_inv [OF assms(2), of host "stream_out la"]
  by (simp add: dumpData_def emit_def)

text \<open>
  C3, as the code has it: the dump reads the buffer empty and writes, for each sample
  in the order of the reads, the four bytes of the sample widened to 32 bits as they
  lie in the memory of the host: least significant byte first on a little-endian
  host, most significant byte first on a big-endian one.  Widening a sample of at
  most 32 bits keeps its value.
\<close>

theorem dumpData_native_order:
  fixes la :: "('a::len) word LogicAnalyzer"
  assumes "buffer_ptr la = Some b" and "rb_inv b" and "impl_ptr la"
  shows
    "dumpData host la =
       Inr (la\<lparr>buffer_ptr :=
                  Some (b\<lparr>read_pos := read_pos b + available_count b, available_count := 0\<rparr>),
               stream_out := stream_out la @
                  map (\<lambda>v. Write_buf (native_bytes host (ucast v))) (contents b) @ [Flush]\<rparr>) \<and>
     (\<forall>w. native_bytes LittleEndian w =
           [ucast w, ucast (drop_bit 8 w), ucast (drop_bit 16 w), ucast (drop_bit 24 w)]) \<and>
     (\<forall>w. native_bytes BigEndian w =
           [ucast (drop_bit 24 w), ucast (drop_bit 16 w), ucast (drop_bit 8 w), ucast w]) \<and>
     (\<forall>v \<in> set (contents b). LENGTH('a) \<le> 32 \<longrightarrow> uint (ucast v :: 32 word) = uint v)"
proof -
  have "uint (ucast v :: 32 word) = uint v" if "LENGTH('a) \<le> 32" for v :: "'a word"
    using that by (simp add: uint_up_ucast is_up)
  then show ?thesis
    using dumpData_emits [OF assms]
    by (simp add: native_bytes_little native_bytes_def be_bytes_def)
qed

lemma dump_example_simps:
  "buffer_ptr dump_example = Some ring4_three" "impl_ptr dump_example"
  "stream_out dump_example = []"
  by (simp_all add: dump_example_def window_example_def begin_la_def setStatus_def raiseEvent_def)

theorem dumpData_native_order_witness:
  "dumpData LittleEndian dump_example = Inr dump_result \<and>
   native_bytes LittleEndian 0x01020304 = [4, 3, 2, 1] \<and>
   native_bytes BigEndian 0x01020304 = [1, 2, 3, 4] \<and>
   uint (ucast (3 :: 8 word) :: 32 word) = 3"
proof -
  note d = dumpData_native_order [OF dump_example_simps(1) window_example_simps(4)
      dump_example_simps(2), of LittleEndian]
  have "dumpData LittleEndian dump_example = Inr dump_result"
    using d [THEN conjunct1]
    by (simp add: dump_result_def dump_example_simps window_example_simps native_bytes_little
        ring4_three_fields)
  moreover have "native_bytes LittleEndian 0x01020304 = [4, 3, 2, 1]"
    using d [THEN conjunct2, THEN conjunct1, rule_format, of "0x01020304"] by simp
  moreover have "native_bytes BigEndian 0x01020304 = [1, 2, 3, 4]"
    using d [THEN conjunct2, THEN conjunct2, THEN conjunct1, rule_format, of "0x01020304"] by simp
  moreover have "uint (ucast (3 :: 8 word) :: 32 word) = 3"
    using d [THEN conjunct2, THEN conjunct2, THEN conjunct2, rule_format, of 3]
    by (simp add: window_example_simps)
  ultimately show ?thesis by blast
qed

text \<open>
  On a little-endian host a sample of one byte is written as the byte followed by three
  zero bytes, which is also the big-endian word that holds the sample left-justified:
  with samples of 8 bits the two orders cannot be told apart.
\<close>

lemma native_bytes_byte_left_justified:
  "native_bytes LittleEndian (ucast v) = be_bytes (push_bit 24 (ucast v))" for v :: "8 word"
proof -
  have a: "(ucast (drop_bit 24 (push_bit 24 (ucast v :: 32 word))) :: 8 word) =
           ucast (ucast v :: 32 word)"
    by (rule bit_word_eqI) (auto simp: bit_simps)
  have z: "(ucast (drop_bit 8 (ucast v :: 32 word)) :: 8 word) = 0"
    "(ucast (drop_bit 16 (ucast v :: 32 word)) :: 8 word) = 0"
    "(ucast (drop_bit 24 (ucast v :: 32 word)) :: 8 word) = 0"
    by (rule bit_word_eqI, auto simp: bit_simps dest: bit_imp_le_length)+
  have y: "(ucast (drop_bit 16 (push_bit 24 (ucast v :: 32 word))) :: 8 word) = 0"
    "(ucast (drop_bit 8 (push_bit 24 (ucast v :: 32 word))) :: 8 word) = 0"
    "(ucast (push_bit 24 (ucast v :: 32 word)) :: 8 word) = 0"
    by (rule bit_word_eqI, auto simp: bit_simps dest: bit_imp_le_length)+
  show ?thesis
    by (simp only: native_bytes_little be_bytes_def a z y)
qed

lemma wide_example_simps:
  "buffer_ptr dump_example16 = Some ring16_one" "impl_ptr dump_example16"
  "stream_out dump_example16 = []" "rb_inv ring16_one" "contents ring16_one = [0x0102]"
  "read_pos ring16_one = 0" "available_count ring16_one = 1"
  "buffer_ptr dump_example32 = Some ring32_one" "impl_ptr dump_example32"
  "stream_out dump_example32 = []" "rb_inv ring32_one" "contents ring32_one = [0x01020304]"
  "read_pos ring32_one = 0" "available_count ring32_one = 1"
  by (simp_all add: dump_example16_def dump_example32_def ring16_one_def ring32_one_def
      begin_la_def setStatus_def raiseEvent_def rb_inv_def contents_def)

text \<open>
  C3, with big-endian words for every host, fails on a little-endian one as soon as a
  sample has more than one byte.  The dump of the 32-bit sample \<^verbatim>\<open>0x01020304\<close> writes
  \<^verbatim>\<open>04 03 02 01\<close>, where the big-endian word is \<^verbatim>\<open>01 02 03 04\<close>.  The dump of the
  16-bit sample \<^verbatim>\<open>0x0102\<close> writes \<^verbatim>\<open>02 01 00 00\<close>, which is neither the big-endian word
  of the zero-extended sample, \<^verbatim>\<open>00 00 01 02\<close>, nor the big-endian word that holds the
  sample left-justified, \<^verbatim>\<open>01 02 00 00\<close>.
\<close>

theorem dump_not_big_endian:
  "dumpData LittleEndian dump_example32 = Inr dump_result32 \<and>
   contents ring32_one = [0x01020304] \<and>
   stream_out dump_result32 = [Write_buf [4, 3, 2, 1], Flush] \<and>
   be_bytes 0x01020304 = [1, 2, 3, 4] \<and>
   stream_out dump_result32 \<noteq> [Write_buf (be_bytes 0x01020304), Flush] \<and>
   dumpData LittleEndian dump_example16 = Inr dump_result16 \<and>
   contents ring16_one = [0x0102] \<and>
   stream_out dump_result16 = [Write_buf [2, 1, 0, 0], Flush] \<and>
   be_bytes (ucast (0x0102 :: 16 word)) = [0, 0, 1, 2] \<and>
   be_bytes (push_bit 16 (ucast (0x0102 :: 16 word))) = [1, 2, 0, 0] \<and>
   stream_out dump_result16 \<noteq> [Write_buf (be_bytes (ucast (0x0102 :: 16 word))), Flush] \<and>
   stream_out dump_result16 \<noteq>
     [Write_buf (be_bytes (push_bit 16 (ucast (0x0102 :: 16 word)))), Flush]"
proof -
  note w = wide_example_simps
  have d32: "dumpData LittleEndian dump_example32 = Inr dump_result32"
    using dumpData_emits [OF w(8) w(11) w(9), of LittleEndian]
    by (simp add: dump_result32_def w native_bytes_little)
  have d16: "dumpData LittleEndian dump_example16 = Inr dump_result16"
    using dumpData_emits [OF w(1) w(4) w(2), of LittleEndian]
    by (simp add: dump_result16_def w native_bytes_little)
  show ?thesis
    using d32 d16 by (simp add: dump_result32_def dump_result16_def be_bytes_def w)
qed

text \<open>
  A batch capture that returns has dumped the buffer that \<^verbatim>\<open>captureAll\<close> left.
\<close>

lemma captureAll_inv:
  assumes "captureAll samples la = Some (Inr (la1, rest))"
    and "buffer_ptr la = Some b" and "rb_inv b"
  shows "\<exists>b1. rb_inv b1 \<and> la1 = la\<lparr>buffer_ptr := Some b1\<rparr>"
  using assms
proof (induction samples la arbitrary: b rule: captureAll.induct)
  case (1 samples la)
  show ?case
  proof (cases "status_value la = TRIGGERED \<and> available b < to_size_t (read_count la)")
    case False
    then have "la1 = la" using "1.prems"(1,2) by (auto split: if_splits)
    then show ?thesis using "1.prems"(2,3) by (intro exI [of _ b]) simp
  next
    case True
    then obtain s xs where sm: "samples = s # xs"
      using "1.prems"(1,2) by (cases samples) auto
    obtain la' where cs: "captureSampleFast s la = Inr la'"
      and rec: "captureAll xs la' = Some (Inr (la1, rest))"
      using "1.prems"(1,2) True sm by (auto split: sum.splits)
    obtain b' where w: "write_rb s b = Inr b'" and la': "la' = la\<lparr>buffer_ptr := Some b'\<rparr>"
      using cs "1.prems"(2) by (auto simp: captureSampleFast_def split: if_splits sum.splits)
    have inv': "rb_inv b'" by (rule write_inv [OF "1.prems"(3) w])
    have "\<exists>b1. rb_inv b1 \<and> la1 = la'\<lparr>buffer_ptr := Some b1\<rparr>"
      using "1.IH" [OF _ "1.prems"(2) _ sm cs rec _ inv'] True la' by simp
    then show ?thesis using la' by auto
  qed
qed

lemma capture_start_dump:
  fixes la :: "('a::len) word LogicAnalyzer"
  assumes "\<not> is_continuous_capture la" and "impl_ptr la"
    and "buffer_ptr la = Some b" and "rb_inv b"
    and "capture_start host is_max_speed True samples la = Some (Inr (la', rest))"
  shows "\<exists>b1. captureAll samples la = Some (Inr (la\<lparr>buffer_ptr := Some b1\<rparr>, rest)) \<and>
          status_value la' = STOPPED \<and>
          stream_out la' = stream_out la @
            map (\<lambda>v. Write_buf (native_bytes host (ucast v))) (contents b1) @ [Flush]"
proof -
  obtain la1 where ca: "captureAll samples la = Some (Inr (la1, rest))"
    and dd: "dumpData host (setStatus STOPPED la1) = Inr la'"
    using assms(1,5)
    by (auto simp: capture_start_def captureAllMaxSpeed_def Let_def
        split: option.splits sum.splits if_splits)
  obtain b1 where b1: "rb_inv b1" "la1 = la\<lparr>buffer_ptr := Some b1\<rparr>"
    using captureAll_inv [OF ca assms(3,4)] by blast
  have "buffer_ptr (setStatus STOPPED la1) = Some b1" "impl_ptr (setStatus STOPPED la1)"
    using b1(2) assms(2) by (simp_all add: setStatus_def raiseEvent_def)
  from dumpData_emits [OF this(1) b1(1) this(2), of host] dd
  have "status_value la' = STOPPED \<and> stream_out la' = stream_out la @
            map (\<lambda>v. Write_buf (native_bytes host (ucast v))) (contents b1) @ [Flush]"
    using b1(2) by (auto simp: setStatus_def raiseEvent_def)
  with ca b1(2) show ?thesis by blast
qed

section \<open>The divider and the delay between two samples\<close>

text \<open>The exponent is the integer part of the binary logarithm.\<close>

lemma pow2_powr: "pow2 e = 2 powr (of_int e)"
  by (simp add: pow2_def powr_real_of_int inverse_eq_divide)

lemma bitlen_pos:
  assumes "n \<ge> 1"
  shows "bitlen n \<ge> 1" "(2::real) ^ nat (bitlen n - 1) \<le> of_int n"
    "of_int n + 1 \<le> (2::real) ^ nat (bitlen n)"
proof -
  have pos: "n > 0" using assms by simp
  show bl: "bitlen n \<ge> 1" using pos by (simp add: bitlen_alt_def)
  have "2 ^ nat (bitlen n - 1) \<le> n" "n + 1 \<le> 2 ^ nat (bitlen n)"
    using bitlen_bounds [OF pos] by simp_all
  then have "of_int (2 ^ nat (bitlen n - 1)) \<le> (of_int n :: real)"
    "(of_int (n + 1) :: real) \<le> of_int (2 ^ nat (bitlen n))"
    by (simp_all only: of_int_le_iff)
  then show "(2::real) ^ nat (bitlen n - 1) \<le> of_int n"
    "of_int n + 1 \<le> (2::real) ^ nat (bitlen n)"
    by simp_all
qed

lemma binade_bounds:
  assumes "x \<noteq> 0"
  shows "pow2 (binade x) \<le> \<bar>x\<bar> \<and> \<bar>x\<bar> < pow2 (binade x + 1)"
proof (cases "\<bar>x\<bar> \<ge> 1")
  case True
  define n where "n = \<lfloor>\<bar>x\<bar>\<rfloor>"
  have n: "n \<ge> 1" "of_int n \<le> \<bar>x\<bar>" "\<bar>x\<bar> < of_int n + 1"
    using True by (auto simp: n_def)
  note b = bitlen_pos [OF n(1)]
  have e: "binade x = bitlen n - 1" using True by (simp add: binade_def n_def)
  have p: "pow2 (binade x) = 2 ^ nat (bitlen n - 1)" "pow2 (binade x + 1) = 2 ^ nat (bitlen n)"
    using b(1) by (simp_all add: e pow2_def)
  have "(2::real) ^ nat (bitlen n - 1) \<le> \<bar>x\<bar>" using b(2) n(2) by (rule order_trans)
  moreover have "\<bar>x\<bar> < (2::real) ^ nat (bitlen n)" using n(3) b(3) by (rule less_le_trans)
  ultimately show ?thesis unfolding p by (rule conjI)
next
  case False
  define y where "y = 1 / \<bar>x\<bar>"
  have y1: "y > 1" using False assms by (simp add: y_def)
  define m where "m = \<lceil>y\<rceil> - 1"
  have m: "m \<ge> 1" "of_int m < y" "y \<le> of_int m + 1"
    using y1 by (auto simp: m_def) linarith+
  note b = bitlen_pos [OF m(1)]
  define k where "k = nat (bitlen m)"
  have k: "bitlen m = int k" "k \<ge> 1" using b(1) by (simp_all add: k_def)
  have "binade x = - bitlen m" using False by (simp add: binade_def y_def m_def)
  then have e: "binade x = - int k" by (simp only: k(1))
  have p1: "pow2 (binade x) = 1 / 2 ^ k"
    using k(2) by (simp add: e pow2_def)
  have "binade x + 1 = - int (k - 1)" using k(2) by (simp add: e)
  then have p2: "pow2 (binade x + 1) = 1 / 2 ^ (k - 1)"
    by (simp only: pow2_def) (auto simp: nat_diff_distrib)
  have km: "nat (bitlen m - 1) = k - 1" by (simp add: k(1))
  have lo: "(2::real) ^ (k - 1) < y"
    using b(2) [unfolded km] m(2) by (rule le_less_trans)
  have hi: "y \<le> 2 ^ k"
    using m(3) b(3) [folded k_def] by (rule order_trans)
  have xy: "\<bar>x\<bar> = 1 / y" "y > 0" using assms y1 by (simp_all add: y_def)
  have "1 / 2 ^ k \<le> 1 / y" using hi xy(2) by (simp add: frac_le)
  moreover have "1 / y < 1 / 2 ^ (k - 1)" using lo by (simp add: frac_less2)
  ultimately show ?thesis by (simp add: p1 p2 xy(1))
qed

lemma binade_log: "x \<noteq> 0 \<Longrightarrow> binade x = \<lfloor>log 2 \<bar>x\<bar>\<rfloor>"
  using binade_bounds [of x] floor_log_eq_powr_iff [of "\<bar>x\<bar>" 2 "binade x"]
  by (simp add: pow2_powr)

lemma to_double_log:
  "to_double x =
     (if x = 0 then 0
      else let e = \<lfloor>log 2 \<bar>x\<bar>\<rfloor>; u = 2 powr (of_int e - 52)
           in of_int (round_even (x / u)) * u)"
  by (simp add: to_double_def binade_log pow2_powr Let_def)

text \<open>
  Rounding to binary64 is exact on the integers below \<open>2\<^sup>5\<^sup>3\<close> and moves any other
  number by at most the \<open>2\<^sup>5\<^sup>3\<close>-th part of its size.
\<close>

lemma round_even_of_int: "round_even (of_int n) = n"
  by (simp add: round_even_def)

lemma round_even_error: "\<bar>of_int (round_even y) - y\<bar> \<le> 1 / 2"
proof -
  have "of_int \<lfloor>y\<rfloor> \<le> y" "y < of_int \<lfloor>y\<rfloor> + 1" by linarith+
  then show ?thesis by (auto simp: round_even_def Let_def)
qed

lemma to_double_error: "\<bar>to_double x - x\<bar> \<le> \<bar>x\<bar> / 2 ^ 53"
proof (cases "x = 0")
  case True
  then show ?thesis by (simp add: to_double_def)
next
  case False
  define e where "e = \<lfloor>log 2 \<bar>x\<bar>\<rfloor>"
  define u :: real where "u = 2 powr (of_int e - 52)"
  have u_pos: "u > 0" by (simp add: u_def)
  have lo: "2 powr (of_int e) \<le> \<bar>x\<bar>"
    using False floor_log_eq_powr_iff [of "\<bar>x\<bar>" 2 e] by (simp add: e_def)
  have u2: "u = 2 powr (of_int e) / 2 ^ 52"
    by (simp add: u_def powr_diff)
  have td: "to_double x = of_int (round_even (x / u)) * u"
    using False by (simp add: to_double_log e_def u_def Let_def)
  have "to_double x - x = (of_int (round_even (x / u)) - x / u) * u"
    using u_pos by (simp add: td left_diff_distrib)
  then have "\<bar>to_double x - x\<bar> = \<bar>of_int (round_even (x / u)) - x / u\<bar> * u"
    using u_pos by (simp add: abs_mult)
  also have "\<dots> \<le> (1 / 2) * u"
    using round_even_error [of "x / u"] u_pos by (intro mult_right_mono) auto
  also have "\<dots> = 2 powr (of_int e) / 2 ^ 53" by (simp add: u2)
  also have "\<dots> \<le> \<bar>x\<bar> / 2 ^ 53" using lo by (simp add: divide_right_mono)
  finally show ?thesis .
qed

lemma to_double_of_int:
  assumes "\<bar>n\<bar> < 2 ^ 53"
  shows "to_double (of_int n) = of_int n"
proof (cases "n = 0")
  case True
  then show ?thesis by (simp add: to_double_def)
next
  case False
  define x :: real where "x = of_int n"
  define e where "e = \<lfloor>log 2 \<bar>x\<bar>\<rfloor>"
  define u :: real where "u = 2 powr (of_int e - 52)"
  have x0: "x \<noteq> 0" "\<bar>x\<bar> \<ge> 1" using False by (simp_all add: x_def flip: of_int_abs)
  have "\<bar>x\<bar> < 2 ^ 53" using assms unfolding x_def by (metis of_int_abs of_int_less_numeral_power_cancel_iff)
  then have "log 2 \<bar>x\<bar> < 53" using x0 by (simp add: log_less_iff powr_realpow [symmetric])
  moreover have "log 2 \<bar>x\<bar> \<ge> 0" using x0 by simp
  ultimately have e: "0 \<le> e" "e \<le> 52" unfolding e_def by linarith+
  define k where "k = nat (52 - e)"
  have u: "u = 1 / 2 ^ k"
  proof -
    have "of_int e - (52::real) = - real k" using e by (simp add: k_def)
    then show ?thesis by (simp add: u_def powr_minus powr_realpow divide_inverse)
  qed
  have "x / u = of_int (n * 2 ^ k)" by (simp add: u x_def)
  then have "round_even (x / u) = n * 2 ^ k" by (simp only: round_even_of_int)
  then have "to_double x = of_int (n * 2 ^ k) * u"
    using x0 by (simp add: to_double_log e_def u_def Let_def)
  also have "\<dots> = x" by (simp add: u x_def)
  finally show ?thesis by (simp add: x_def)
qed


lemma trunc_of_int: "trunc (of_int n) = n"
  by (simp add: trunc_def)

lemma trunc_between:
  assumes "of_int n < x" and "x < of_int n + 1" and "0 \<le> n"
  shows "trunc x = n"
proof -
  have "\<lfloor>x\<rfloor> = n" using assms(1,2) by linarith
  moreover have "x \<ge> 0" using assms(1,3) by (smt (verit) of_int_nonneg)
  ultimately show ?thesis by (simp add: trunc_def)
qed

lemma trunc_negative_fraction:
  assumes "- 1 < x" and "x < 0"
  shows "trunc x = 0"
proof -
  have "\<lceil>x\<rceil> = 0" using assms by linarith
  then show ?thesis using assms by (simp add: trunc_def)
qed

text \<open>
  The double-precision computation of \<^verbatim>\<open>setCaptureFrequency\<close> for a frequency from
  1 Hz to 100 MHz: the rounding errors of the quotient and of the difference are too
  small to change the integer part, so that the result is the exact value of
  \<open>1000000 / v - 1\<close>, truncated towards zero.
\<close>

lemma delay_double:
  assumes "1 \<le> v" and "v \<le> 100000000"
  shows "trunc (to_double (to_double (1000000 / to_double (real v)) - 1)) =
           (if v \<le> 1000000 then int (1000000 div v) - 1 else 0) \<and>
         trunc (1000000 / real v - 1) =
           (if v \<le> 1000000 then int (1000000 div v) - 1 else 0)"
proof -
  define q :: real where "q = 1000000 / real v"
  define rq where "rq = to_double q"
  define r2 where "r2 = to_double (rq - 1)"
  have tv: "to_double (real v) = real v"
    using to_double_of_int [of "int v"] assms(2) by simp
  have vpos: "real v \<ge> 1" using assms(1) by simp
  have qv: "q * real v = 1000000" using vpos by (simp add: q_def)
  have q0: "0 < q" using vpos by (simp add: q_def)
  have e1: "\<bar>rq - q\<bar> \<le> q / 2 ^ 53"
    using to_double_error [of q] q0 by (simp add: rq_def)
  have e2: "\<bar>r2 - (rq - 1)\<bar> \<le> \<bar>rq - 1\<bar> / 2 ^ 53"
    using to_double_error [of "rq - 1"] by (simp add: r2_def)
  have goal: "trunc r2 = (if v \<le> 1000000 then int (1000000 div v) - 1 else 0) \<and>
      trunc (q - 1) = (if v \<le> 1000000 then int (1000000 div v) - 1 else 0)"
  proof (cases "v \<le> 1000000")
    case True
    define n where "n = 1000000 div v"
    define r where "r = 1000000 mod v"
    have "v * 1 \<le> 1000000" using True by simp
    then have "1 \<le> 1000000 div v" using assms(1) by (subst less_eq_div_iff_mult_less_eq) simp_all
    then have "0 < 1000000 div v" by simp
    then have n1: "n \<ge> 1" by (simp add: n_def)
    have dm: "n * v + r = 1000000" by (simp add: n_def r_def)
    have rv: "r < v" using assms(1) by (simp add: r_def)
    have "real (n * v + r) = 1000000" using dm by simp
    then have qn: "q = real n + real r / real v"
      using vpos by (simp add: q_def field_simps)
    show ?thesis
    proof (cases "r = 0")
      case True
      then have q: "q = of_int (int n)" using qn by simp
      have "n \<le> 1000000" by (simp add: n_def)
      then have "int n < 2 ^ 53" by simp
      then have "rq = of_int (int n)"
        unfolding rq_def q by (intro to_double_of_int) simp
      then have rq1: "rq - 1 = of_int (int n - 1)" by simp
      have "\<bar>int n - 1\<bar> < 2 ^ 53" using \<open>int n < 2 ^ 53\<close> n1 by simp
      then have "r2 = of_int (int n - 1)"
        unfolding r2_def rq1 by (rule to_double_of_int)
      moreover have "q - 1 = of_int (int n - 1)" using q by simp
      ultimately show ?thesis
        using \<open>v \<le> 1000000\<close> by (simp only: trunc_of_int n_def if_True)
    next
      case False
      define a :: real where "a = 1 / real v"
      have a1: "a \<ge> 1 / 1000000" using \<open>v \<le> 1000000\<close> assms(1)
        by (simp add: a_def field_simps)
      have ra: "real r / real v = real r * a" by (simp add: a_def)
      have lo: "real r * a \<ge> a" using False vpos by (simp add: a_def field_simps)
      have "real r \<le> real v - 1" using rv by linarith
      then have "real r * a \<le> (real v - 1) * a"
        using vpos by (intro mult_right_mono) (simp_all add: a_def)
      also have "\<dots> = 1 - a" using vpos by (simp add: a_def field_simps)
      finally have hi: "real r * a \<le> 1 - a" .
      have "n \<le> 1000000" by (simp add: n_def)
      then have nle: "real n \<le> 1000000" by simp
      have qle: "q \<le> 1000001" using qn ra hi nle a1 by linarith
      have c: "(1000001::real) / 2 ^ 53 \<le> 1 / 1000000000" by simp
      have "q / 2 ^ 53 \<le> 1000001 / 2 ^ 53" using qle by (simp add: divide_right_mono)
      with e1 c have b1: "\<bar>rq - q\<bar> \<le> 1 / 1000000000" by linarith
      have "\<bar>rq - 1\<bar> \<le> 1000001" using b1 qle q0 by linarith
      then have "\<bar>rq - 1\<bar> / 2 ^ 53 \<le> 1000001 / 2 ^ 53" by (simp add: divide_right_mono)
      with e2 c have b2: "\<bar>r2 - (rq - 1)\<bar> \<le> 1 / 1000000000" by linarith
      define p where "p = real r * a"
      have qp: "q = real n + p" using qn ra by (simp add: p_def)
      have pb: "a \<le> p" "p \<le> 1 - a" using lo hi by (simp_all add: p_def)
      have cast: "(of_int (int n - 1) :: real) = real n - 1" by simp
      have "real n - 1 < r2" "r2 < real n - 1 + 1"
        using b1 b2 qp pb a1 by linarith+
      then have "trunc r2 = int n - 1"
        using n1 unfolding cast [symmetric] by (intro trunc_between) simp_all
      moreover have "real n - 1 < q - 1" "q - 1 < real n - 1 + 1"
        using qp pb a1 by linarith+
      then have "trunc (q - 1) = int n - 1"
        using n1 unfolding cast [symmetric] by (intro trunc_between) simp_all
      ultimately show ?thesis using \<open>v \<le> 1000000\<close> by (simp add: n_def)
    qed
  next
    case False
    have "q * real v \<le> real v - 1" using False qv by linarith
    then have "q \<le> 1 - 1 / real v" using vpos by (simp add: field_simps)
    moreover have "1 / real v \<ge> 1 / 100000000" using assms by (simp add: field_simps)
    ultimately have qhi: "q \<le> 1 - 1 / 100000000" by linarith
    have "q * real v \<ge> (1 / 100) * real v" using qv assms(2) by simp
    then have qlo: "q \<ge> 1 / 100" using vpos by simp
    have c: "(1::real) / 2 ^ 53 \<le> 1 / 1000000000" by simp
    have "q / 2 ^ 53 \<le> 1 / 2 ^ 53" using qhi by (simp add: divide_right_mono)
    with e1 c have b1: "\<bar>rq - q\<bar> \<le> 1 / 1000000000" by linarith
    have "\<bar>rq - 1\<bar> \<le> 1" using b1 qhi qlo by linarith
    then have "\<bar>rq - 1\<bar> / 2 ^ 53 \<le> 1 / 2 ^ 53" by (simp add: divide_right_mono)
    with e2 c have b2: "\<bar>r2 - (rq - 1)\<bar> \<le> 1 / 1000000000" by linarith
    have "- 1 < r2" "r2 < 0" using b1 b2 qhi qlo by linarith+
    then have "trunc r2 = 0" by (rule trunc_negative_fraction)
    moreover have "trunc (q - 1) = 0" using qhi qlo by (intro trunc_negative_fraction) linarith+
    ultimately show ?thesis using False by simp
  qed
  then show ?thesis by (simp add: r2_def rq_def q_def tv)
qed


lemma setCaptureFrequency_delay:
  assumes "1 \<le> unat v" and "unat v \<le> 100000000"
  shows "setCaptureFrequency v la =
     Inr (raiseEvent CAPTURE_FREQUNCY
       (la\<lparr>frequecy_value := v,
           delay_time_us := word_of_int (trunc (1000000 / real (unat v) - 1))\<rparr>))"
proof -
  let ?t = "trunc (to_double (to_double (1000000 / to_double (real (unat v))) - 1))"
  have v0: "v \<noteq> 0" using assms(1) by auto
  have t: "?t = trunc (1000000 / real (unat v) - 1)"
    and t': "?t = (if unat v \<le> 1000000 then int (1000000 div unat v) - 1 else 0)"
    using delay_double [OF assms] by simp_all
  have "1000000 div unat v \<le> 1000000" by simp
  then have "int (1000000 div unat v) - 1 < 1000000" by linarith
  also have "(1000000 :: int) < 2 ^ 64" by simp
  finally have "int (1000000 div unat v) - 1 < 2 ^ 64" .
  moreover have "1000000 div unat v \<ge> 1" if "unat v \<le> 1000000"
    using that assms(1) by (subst less_eq_div_iff_mult_less_eq) simp_all
  ultimately have "0 \<le> ?t \<and> ?t < 2 ^ 64" unfolding t' by auto
  then have "double_to_u64 (to_double (to_double (1000000 / to_double (real (unat v))) - 1)) =
      Inr (word_of_int ?t)"
    by (simp add: double_to_u64_def)
  then show ?thesis using v0 t by (simp add: setCaptureFrequency_def Let_def)
qed

lemma setupDelay_frequency:
  assumes "impl_ptr la" and "unat d < 100000000"
  shows "setupDelay d la = setCaptureFrequency (word_of_nat (100000000 div (unat d + 1))) la"
proof -
  have u1: "unat (d + 1) = unat d + 1"
    using assms(2) by (simp add: unat_word_ariths)
  then have nz: "d + 1 \<noteq> 0" by (metis Suc_eq_plus1 nat.simps(3) unat_0)
  have "unat ((100000000 :: 32 word) div (d + 1)) = 100000000 div (unat d + 1)"
    by (simp add: unat_div u1)
  then have "(ucast ((100000000 :: 32 word) div (d + 1)) :: 64 word) =
      word_of_nat (100000000 div (unat d + 1))"
    by (metis of_nat_unat)
  then show ?thesis using assms(1) nz by (simp add: setupDelay_def)
qed


text \<open>
  C8: \<^verbatim>\<open>SUMP_SET_DIVIDER\<close> with a divider \<open>d\<close> below \<open>10\<^sup>8\<close>, so that the frequency
  is at least 1 Hz.  The frequency becomes \<open>100000000 div (d + 1)\<close> and the delay
  \<open>1000000 / frequency - 1\<close> microseconds, truncated towards zero as the conversion
  to \<^verbatim>\<open>uint64_t\<close> does: \<open>1000000 div frequency - 1\<close> up to 1 MHz, and 0 above.
  Neither value wraps around.  Divider 99 gives 1 MHz and 0 microseconds, divider
  199 gives 500 kHz and 1 microsecond.
\<close>

theorem set_divider_frequency_and_delay:
  fixes la :: "('a::len) word LogicAnalyzer"
  assumes "buffer_ptr la = Some b" and "impl_ptr la"
    and "get32 arg = d" and "unat d < 100000000"
    and "f = 100000000 div (unat d + 1)"
  shows
    "processCommand host now 0x80 arg samples la =
       Some (Inr (raiseEvent CAPTURE_FREQUNCY
         (la\<lparr>frequecy_value := word_of_nat f,
             delay_time_us := word_of_int (trunc (1000000 / real f - 1))\<rparr>), samples)) \<and>
     unat (word_of_nat f :: 64 word) = f \<and>
     uint (word_of_int (trunc (1000000 / real f - 1)) :: 64 word) =
       trunc (1000000 / real f - 1) \<and>
     trunc (1000000 / real f - 1) = (if f \<le> 1000000 then int (1000000 div f) - 1 else 0) \<and>
     (d = 99 \<longrightarrow> f = 1000000 \<and> trunc (1000000 / real f - 1) = 0) \<and>
     (d = 199 \<longrightarrow> f = 500000 \<and> trunc (1000000 / real f - 1) = 1)"
proof -
  have f1: "1 \<le> f"
    unfolding assms(5) using assms(4) by (subst less_eq_div_iff_mult_less_eq) simp_all
  have f2: "f \<le> 100000000" unfolding assms(5) by simp
  have uf: "unat (word_of_nat f :: 64 word) = f"
    using f2 by (simp add: unat_of_nat)
  have t: "trunc (1000000 / real f - 1) = (if f \<le> 1000000 then int (1000000 div f) - 1 else 0)"
    using delay_double [OF f1 f2] by simp
  have "1000000 div f \<ge> 1" if "f \<le> 1000000"
    using that f1 by (subst less_eq_div_iff_mult_less_eq) simp_all
  moreover have "int (1000000 div f) - 1 < 1000000"
    using div_le_dividend [of 1000000 f] by linarith
  ultimately have tb: "0 \<le> trunc (1000000 / real f - 1)" "trunc (1000000 / real f - 1) < 1000000"
    unfolding t by auto
  have ut: "uint (word_of_int (trunc (1000000 / real f - 1)) :: 64 word) =
       trunc (1000000 / real f - 1)"
    using tb by (simp add: uint_word_of_int take_bit_eq_mod)
  have "setupDelay d la = Inr (raiseEvent CAPTURE_FREQUNCY
         (la\<lparr>frequecy_value := word_of_nat f,
             delay_time_us := word_of_int (trunc (1000000 / real f - 1))\<rparr>))"
  proof -
    have "setupDelay d la = setCaptureFrequency (word_of_nat f) la"
      unfolding assms(5) by (rule setupDelay_frequency [OF assms(2,4)])
    also have "\<dots> = Inr (raiseEvent CAPTURE_FREQUNCY
         (la\<lparr>frequecy_value := word_of_nat f,
             delay_time_us := word_of_int
               (trunc (1000000 / real (unat (word_of_nat f :: 64 word)) - 1))\<rparr>))"
      by (rule setCaptureFrequency_delay) (simp_all only: uf f1 f2)
    finally show ?thesis unfolding uf .
  qed
  then have pc: "processCommand host now 0x80 arg samples la =
       Some (Inr (raiseEvent CAPTURE_FREQUNCY
         (la\<lparr>frequecy_value := word_of_nat f,
             delay_time_us := word_of_int (trunc (1000000 / real f - 1))\<rparr>), samples))"
    using assms(1,2,3) by (simp add: processCommand_def)
  have i1: "f = 1000000 \<and> trunc (1000000 / real f - 1) = 0" if "d = 99"
    using that t by (simp add: assms(5))
  have i2: "f = 500000 \<and> trunc (1000000 / real f - 1) = 1" if "d = 199"
    using that t by (simp add: assms(5))
  show ?thesis using pc uf ut t i1 i2 by blast
qed

lemma get32_examples:
  "get32 (Sump4ByteComandArg 0 0 0 99) = 99" "get32 (Sump4ByteComandArg 0 0 0 199) = 199"
  "get32 (Sump4ByteComandArg 0 0 0 0) = 0"
  by (simp_all add: get32_def be_word_def)

theorem set_divider_witness:
  "processCommand LittleEndian 0 0x80 (Sump4ByteComandArg 0 0 0 99) [] dump_example =
     Some (Inr (raiseEvent CAPTURE_FREQUNCY
       (dump_example\<lparr>frequecy_value := 1000000, delay_time_us := 0\<rparr>), [])) \<and>
   processCommand LittleEndian 0 0x80 (Sump4ByteComandArg 0 0 0 199) [] dump_example =
     Some (Inr (raiseEvent CAPTURE_FREQUNCY
       (dump_example\<lparr>frequecy_value := 500000, delay_time_us := 1\<rparr>), [])) \<and>
   processCommand LittleEndian 0 0x80 (Sump4ByteComandArg 0 0 0 0) [] dump_example =
     Some (Inr (raiseEvent CAPTURE_FREQUNCY
       (dump_example\<lparr>frequecy_value := 100000000, delay_time_us := 0\<rparr>), []))"
proof -
  note b = dump_example_simps(1)
  note i = dump_example_simps(2)
  have u: "unat (99 :: 32 word) < 100000000" "unat (199 :: 32 word) < 100000000"
    "unat (0 :: 32 word) < 100000000" by simp_all
  have f: "(1000000::nat) = 100000000 div (unat (99 :: 32 word) + 1)"
    "(500000::nat) = 100000000 div (unat (199 :: 32 word) + 1)"
    "(100000000::nat) = 100000000 div (unat (0 :: 32 word) + 1)" by simp_all
  note t1 = set_divider_frequency_and_delay [OF b i get32_examples(1) u(1) f(1),
      of LittleEndian 0 "[]"]
  note t2 = set_divider_frequency_and_delay [OF b i get32_examples(2) u(2) f(2),
      of LittleEndian 0 "[]"]
  note t3 = set_divider_frequency_and_delay [OF b i get32_examples(3) u(3) f(3),
      of LittleEndian 0 "[]"]
  have d1: "trunc (1000000 / real 1000000 - 1) = 0" using t1 by simp
  have d2: "trunc (1000000 / real 500000 - 1) = 1" using t2 by simp
  have d3: "trunc (1000000 / real 100000000 - 1) = 0" using t3 by simp
  show ?thesis
    using t1 [THEN conjunct1] t2 [THEN conjunct1] t3 [THEN conjunct1]
    unfolding d1 d2 d3 by simp
qed

end
